theory Spec2Isabelle
  imports Main "HOL-Library.Word" "HOL-Library.Sublist"
begin

unbundle bit_operations_syntax

section \<open>The bytecode plugin of electron-vite (src/plugins/bytecode.ts)\<close>

text \<open>
  The plugin is a closure over its options and the mutable variables
  \<open>bytecodeChunks\<close> and \<open>useInRenderer\<close>. The closure is a record that every hook takes
  and returns; the report list \<open>bytecodeFiles\<close> is returned by \<open>writeBundle\<close> chunk by
  chunk, and \<open>closeBundle\<close>, which only logs that list, is left out. Functions of Node, Vite, Babel, magic-string and the regular-expression
  engine are not part of the repository: the ones whose result matters are
  parameters of the hooks, collected in the record \<open>env\<close>.
\<close>

subsection \<open>Data\<close>

type_synonym byte = "8 word"
type_synonym buffer = "byte list"

datatype error =
    Thrown string
  | ProcessError string
  | RegExpSyntaxError
  | MagicStringError string
  | BabelError
  | CachedDataRejected
  | RangeError string

datatype chunkAlias_option = AliasString string | AliasArray "string list"

record BytecodeOptions =
  opt_chunkAlias :: "chunkAlias_option option"
  opt_transformArrowFunctions :: "bool option"
  opt_removeBundleJS :: "bool option"

record plugin =
  chunkAlias_list :: "string list"
  transformArrowFunctions :: bool
  removeBundleJS :: bool
  bytecodeChunks :: "string list"
  useInRenderer :: bool

datatype chunk_kind = chunk_kind | asset_kind

record chunk =
  chunk_type :: chunk_kind
  chunk_name :: string
  chunk_fileName :: string
  chunk_code :: string
  isEntry :: bool
  chunk_imports :: "string list"
  chunk_dynamicImports :: "string list"

record ModuleInfo =
  isExternal :: bool
  importers :: "string list"
  dynamicImporters :: "string list"

text \<open>The module graph of the bundler is finite: \<open>getModuleInfo\<close> is the lookup in an
  association list.\<close>

type_synonym module_graph = "(string \<times> ModuleInfo) list"

definition getModuleInfo :: "module_graph \<Rightarrow> string \<Rightarrow> ModuleInfo option" where
  "getModuleInfo g moduleId = map_of g moduleId"

subsection \<open>Plugin construction and the chunk selector\<close>

text \<open>\<open>process.env.NODE_ENV_ELECTRON_VITE\<close> is \<open>None\<close> when the variable is unset; the
  options argument is \<open>None\<close> when the caller passes none (the parameter default is
  the empty object).\<close>

definition bytecodePlugin :: "string option \<Rightarrow> BytecodeOptions option \<Rightarrow> plugin option" where
  "bytecodePlugin NODE_ENV_ELECTRON_VITE options =
     (if NODE_ENV_ELECTRON_VITE \<noteq> Some ''production'' then None
      else
        let opts = (case options of
                      None \<Rightarrow> \<lparr>opt_chunkAlias = None, opt_transformArrowFunctions = None,
                               opt_removeBundleJS = None\<rparr>
                    | Some given \<Rightarrow> given);
            chunkAlias = (case opt_chunkAlias opts of None \<Rightarrow> AliasArray [] | Some a \<Rightarrow> a);
            transformArrow = (case opt_transformArrowFunctions opts of None \<Rightarrow> True | Some b \<Rightarrow> b);
            removeJS = (case opt_removeBundleJS opts of None \<Rightarrow> True | Some b \<Rightarrow> b);
            aliases = (case chunkAlias of AliasArray xs \<Rightarrow> xs | AliasString x \<Rightarrow> [x])
        in Some \<lparr>chunkAlias_list = aliases, transformArrowFunctions = transformArrow,
                 removeBundleJS = removeJS, bytecodeChunks = [], useInRenderer = False\<rparr>)"

definition isBytecodeChunk :: "plugin \<Rightarrow> string \<Rightarrow> bool" where
  "isBytecodeChunk p chunkName =
     (let transformAllChunks = (length (chunkAlias_list p) = 0)
      in transformAllChunks \<or> list_ex (\<lambda>alias. alias = chunkName) (chunkAlias_list p))"

definition requireBytecodeLoaderStr :: string where
  \<open>requireBytecodeLoaderStr = ''"use strict";\<newline>require("./bytecode-loader.js");''\<close>

subsection \<open>configResolved, renderChunk, generateBundle\<close>

record ResolvedConfig =
  config_plugins :: "string list"

datatype log_entry = Warn string | Info string

text \<open>\<open>yellow\<close> is \<open>colors.yellow\<close> of picocolors.\<close>

definition configResolved ::
  "(string \<Rightarrow> string) \<Rightarrow> plugin \<Rightarrow> ResolvedConfig \<Rightarrow> plugin \<times> log_entry list" where
  "configResolved yellow p resolvedConfig =
     (let inRenderer = list_ex (\<lambda>n. n = ''vite:electron-renderer-preset-config'')
                         (config_plugins resolvedConfig)
      in (p\<lparr>useInRenderer := inRenderer\<rparr>,
          if inRenderer then [Warn (yellow ''bytecodePlugin is not support renderers'')] else []))"

text \<open>\<open>babel\<close> is \<open>babel.transform\<close> with the arrow-function plugin: it throws
  (\<open>Inl\<close>) or returns a result whose \<open>code\<close> may be absent.\<close>

definition transform_code :: "(string \<Rightarrow> error + string option) \<Rightarrow> string \<Rightarrow> error + string" where
  "transform_code babel code =
     (case babel code of
        Inl e \<Rightarrow> Inl e
      | Inr re \<Rightarrow> Inr (case re of None \<Rightarrow> '''' | Some c \<Rightarrow> c))"

definition renderChunk ::
  "(string \<Rightarrow> error + string option) \<Rightarrow> plugin \<Rightarrow> string \<Rightarrow> chunk \<Rightarrow> error + plugin \<times> string option" where
  "renderChunk babel p code chunk =
     (if useInRenderer p then Inr (p, None)
      else if chunk_type chunk = chunk_kind \<and> isBytecodeChunk p (chunk_name chunk) then
        (let p' = p\<lparr>bytecodeChunks := bytecodeChunks p @ [chunk_fileName chunk]\<rparr>
         in if transformArrowFunctions p then
              (case transform_code babel code of
                 Inl e \<Rightarrow> Inl e
               | Inr c \<Rightarrow> Inr (p', Some c))
            else Inr (p', None))
      else Inr (p, None))"

fun join :: "string \<Rightarrow> string list \<Rightarrow> string" where
  "join sep [] = ''''"
| "join sep [x] = x"
| "join sep (x # y # ys) = x @ sep @ join sep (y # ys)"

record emitted_file =
  emitted_type :: chunk_kind
  emitted_source :: string
  emitted_name :: string
  emitted_fileName :: string

text \<open>\<open>loaderCode\<close> is the constant array \<open>bytecodeModuleLoaderCode\<close> of source lines.\<close>

definition generateBundle :: "string list \<Rightarrow> plugin \<Rightarrow> emitted_file list" where
  "generateBundle loaderCode p =
     (if \<not> useInRenderer p \<and> length (bytecodeChunks p) \<noteq> 0 then
        [\<lparr>emitted_type = asset_kind,
          emitted_source = join ''\<newline>'' loaderCode @ ''\<newline>'',
          emitted_name = ''Bytecode Loader File'',
          emitted_fileName = ''bytecode-loader.js''\<rparr>]
      else [])"

subsection \<open>compileToBytecode\<close>

text \<open>
  The promise is settled by the listeners the function registers on the child
  process. A run of the executor either throws before the listeners are registered
  (\<open>getElectronPath\<close> or \<open>spawn\<close> itself), which rejects the promise, or gives the
  sequence of events the child process emits; the listeners run in that order, and
  only the first call of \<open>resolve\<close> or \<open>reject\<close> settles the promise.
\<close>

datatype proc_event =
    StdoutData buffer
  | StdoutError string
  | StdoutEnd
  | StderrData buffer
  | StderrError string
  | ProcMessage string
  | ProcError string
  | ProcExit int

datatype 'a promise = Pending | Resolved 'a | Rejected error

record compile_state =
  data :: buffer
  settled :: "buffer promise"

definition resolve :: "buffer \<Rightarrow> compile_state \<Rightarrow> compile_state" where
  "resolve v s = (if settled s = Pending then s\<lparr>settled := Resolved v\<rparr> else s)"

definition reject :: "error \<Rightarrow> compile_state \<Rightarrow> compile_state" where
  "reject e s = (if settled s = Pending then s\<lparr>settled := Rejected e\<rparr> else s)"

fun on_event :: "compile_state \<Rightarrow> proc_event \<Rightarrow> compile_state" where
  "on_event s (StdoutData chunk) = s\<lparr>data := data s @ chunk\<rparr>"
| "on_event s (StdoutError err) = s"
| "on_event s StdoutEnd = resolve (data s) s"
| "on_event s (StderrData chunk) = s"
| "on_event s (StderrError err) = s"
| "on_event s (ProcMessage message) = s"
| "on_event s (ProcError err) = reject (ProcessError err) s"
| "on_event s (ProcExit status) = resolve (data s) s"

definition compileToBytecode :: "error + proc_event list \<Rightarrow> buffer promise" where
  "compileToBytecode run =
     (case run of
        Inl e \<Rightarrow> Rejected e
      | Inr events \<Rightarrow> settled (foldl on_event \<lparr>data = [], settled = Pending\<rparr> events))"

subsection \<open>Reference rewriting\<close>

text \<open>
  The regular expression is built from the text
  \<open>bytecodeChunks.map(chunk => `(${chunk})`).join('|')\<close> with the flag \<open>g\<close>. The engine
  is a parameter: a \<open>matcher\<close> takes the input and \<open>lastIndex\<close> and returns the index and
  the length of the leftmost match starting at or after \<open>lastIndex\<close>. \<open>RegExp_exec\<close> is
  \<open>exec\<close> on a global expression; it keeps of the parameter only answers that lie
  inside the input and do not start before \<open>lastIndex\<close>, as every engine's do.
  \<open>match_all\<close> is the loop of \<open>String.prototype.match\<close>, which steps over an empty match.
\<close>

definition bytecodeRE_source :: "string list \<Rightarrow> string" where
  "bytecodeRE_source chunks = join ''|'' (map (\<lambda>chunk. ''('' @ chunk @ '')'') chunks)"


type_synonym matcher = "string \<Rightarrow> nat \<Rightarrow> (nat \<times> nat) option"

definition RegExp_exec :: "matcher \<Rightarrow> string \<Rightarrow> nat \<Rightarrow> (nat \<times> nat) option" where
  "RegExp_exec re s lastIndex =
     (if length s < lastIndex then None
      else case re s lastIndex of
             None \<Rightarrow> None
           | Some (index, len) \<Rightarrow>
               if lastIndex \<le> index \<and> index + len \<le> length s then Some (index, len) else None)"

function match_all :: "matcher \<Rightarrow> string \<Rightarrow> nat \<Rightarrow> (nat \<times> nat) list" where
  "match_all re s lastIndex =
     (case RegExp_exec re s lastIndex of
        None \<Rightarrow> []
      | Some (index, len) \<Rightarrow>
          (index, len) # match_all re s (if len = 0 then index + 1 else index + len))"
  by pat_completeness auto
termination
  by (relation "measure (\<lambda>(re, s, lastIndex). Suc (length s) - lastIndex)")
     (auto simp: RegExp_exec_def split: if_splits option.splits)

definition String_match :: "matcher \<Rightarrow> string \<Rightarrow> (nat \<times> nat) list option" where
  "String_match re s = (case match_all re s 0 of [] \<Rightarrow> None | m # ms \<Rightarrow> Some (m # ms))"

text \<open>
  A \<open>MagicString\<close> is the original text and the overwrites made so far, each addressed
  by offsets of the original. \<open>overwrite\<close> throws on an empty range and on a range
  beyond the end, as magic-string does. The model covers overwrites of ranges not
  touched before, the only ones the loop of \<open>writeBundle\<close> asks for, and answers any
  other request with an error. \<open>toString\<close> copies the original and puts each overwrite
  in the place of its range.
\<close>

record MagicString =
  original :: string
  edits :: "(nat \<times> nat \<times> string) list"

definition MagicString_new :: "string \<Rightarrow> MagicString" where
  "MagicString_new str = \<lparr>original = str, edits = []\<rparr>"

definition overwrite :: "MagicString \<Rightarrow> nat \<Rightarrow> nat \<Rightarrow> string \<Rightarrow> error + MagicString" where
  "overwrite s start finish content =
     (if length (original s) < finish then Inl (MagicStringError ''end is out of bounds'')
      else if start = finish then Inl (MagicStringError ''Cannot overwrite a zero-length range'')
      else if finish < start \<or> list_ex (\<lambda>(a, b, c). start < b \<and> a < finish) (edits s)
        then Inl (MagicStringError ''Cannot split a chunk that has already been edited'')
      else Inr (s\<lparr>edits := edits s @ [(start, finish, content)]\<rparr>))"

fun render :: "string \<Rightarrow> nat \<Rightarrow> (nat \<times> nat \<times> string) list \<Rightarrow> string" where
  "render str pos [] = drop pos str"
| "render str pos ((a, b, content) # es) = take (a - pos) (drop pos str) @ content @ render str b es"

definition toString :: "MagicString \<Rightarrow> string" where
  "toString s = render (original s) 0 (sort_key fst (edits s))"

function exec_loop :: "matcher \<Rightarrow> string \<Rightarrow> nat \<Rightarrow> MagicString \<Rightarrow> error + MagicString" where
  "exec_loop re code lastIndex s =
     (case RegExp_exec re code lastIndex of
        None \<Rightarrow> Inr s
      | Some (index, len) \<Rightarrow>
          (case overwrite s index (index + len) (take len (drop index code) @ ''c'') of
             Inl e \<Rightarrow> Inl e
           | Inr s' \<Rightarrow> exec_loop re code (index + len) s'))"
  by pat_completeness auto
termination
  by (relation "measure (\<lambda>(re, code, lastIndex, s). Suc (length code) - lastIndex)")
     (auto simp: RegExp_exec_def overwrite_def split: if_splits option.splits)

definition rewrite_references :: "matcher \<Rightarrow> string \<Rightarrow> error + string" where
  "rewrite_references bytecodeRE code =
     (case String_match bytecodeRE code of
        None \<Rightarrow> Inr code
      | Some found \<Rightarrow>
          (case exec_loop bytecodeRE code 0 (MagicString_new code) of
             Inl e \<Rightarrow> Inl e
           | Inr s \<Rightarrow> Inr (toString s)))"

subsection \<open>Dependency propagation\<close>

text \<open>
  A JavaScript \<open>Set\<close> iterates in insertion order and visits the elements added during
  the iteration: it is a duplicate-free list and the position of the iterator.
\<close>

definition set_add :: "string list \<Rightarrow> string \<Rightarrow> string list" where
  "set_add ids x = (if x \<in> set ids then ids else ids @ [x])"

definition set_add_all :: "string list \<Rightarrow> string list \<Rightarrow> string list" where
  "set_add_all ids xs = foldl set_add ids xs"

definition new_Set :: "string list \<Rightarrow> string list" where
  "new_Set xs = set_add_all [] xs"

definition graph_importers :: "module_graph \<Rightarrow> string set" where
  "graph_importers g = (\<Union>(k, mi) \<in> set g. set (importers mi) \<union> set (dynamicImporters mi))"

record propagation =
  hasBytecodeMoudle :: bool
  idsToHandle :: "string list"
  visited :: nat

function propagate_loop :: "module_graph \<Rightarrow> string list \<Rightarrow> string list \<Rightarrow> nat \<Rightarrow> propagation" where
  "propagate_loop g bc ids i =
     (if i < length ids then
        (let moduleId = ids ! i in
         if moduleId \<in> set bc then \<lparr>hasBytecodeMoudle = True, idsToHandle = ids, visited = Suc i\<rparr>
         else
           (case getModuleInfo g moduleId of
              None \<Rightarrow> propagate_loop g bc ids (Suc i)
            | Some moduleInfo \<Rightarrow>
                if \<not> isExternal moduleInfo then
                  propagate_loop g bc
                    (set_add_all (set_add_all ids (importers moduleInfo)) (dynamicImporters moduleInfo))
                    (Suc i)
                else propagate_loop g bc ids (Suc i)))
      else \<lparr>hasBytecodeMoudle = False, idsToHandle = ids, visited = i\<rparr>)"
  by pat_completeness auto
termination
proof (relation "measure (\<lambda>(g, bc, ids, i). length ids + card (graph_importers g - set ids) - i)")
  show "wf (measure (\<lambda>(g, bc, ids, i). length ids + card (graph_importers g - set ids) - i))"
    by simp
next
  fix g :: module_graph and bc ids :: "string list" and i :: nat and x
  assume "i < length ids" "x = ids ! i" "x \<notin> set bc" "getModuleInfo g x = None"
  then show "((g, bc, ids, Suc i), (g, bc, ids, i))
      \<in> measure (\<lambda>(g, bc, ids, i). length ids + card (graph_importers g - set ids) - i)"
    by simp
next
  fix g :: module_graph and bc ids :: "string list" and i :: nat and x mi
  assume "i < length ids" "x = ids ! i" "x \<notin> set bc" "getModuleInfo g x = Some mi" "\<not> \<not> isExternal mi"
  then show "((g, bc, ids, Suc i), (g, bc, ids, i))
      \<in> measure (\<lambda>(g, bc, ids, i). length ids + card (graph_importers g - set ids) - i)"
    by simp
next
  fix g :: module_graph and bc ids :: "string list" and i :: nat and x mi
  assume a: "i < length ids" "getModuleInfo g x = Some mi"
  have fin: "finite (graph_importers g)"
    by (auto simp: graph_importers_def)
  have one: "length (set_add xs y) + card (graph_importers g - set (set_add xs y))
             = length xs + card (graph_importers g - set xs)"
    if "y \<in> graph_importers g" for xs y
  proof (cases "y \<in> set xs")
    case True
    then show ?thesis by (simp add: set_add_def)
  next
    case False
    have "graph_importers g - set xs = insert y (graph_importers g - insert y (set xs))"
      using that False by auto
    moreover have "y \<notin> graph_importers g - insert y (set xs)" by simp
    ultimately have "card (graph_importers g - set xs) = Suc (card (graph_importers g - insert y (set xs)))"
      using fin by (metis card_insert_disjoint finite_Diff)
    with False show ?thesis by (simp add: set_add_def)
  qed
  have many: "length (set_add_all xs ys) + card (graph_importers g - set (set_add_all xs ys))
             = length xs + card (graph_importers g - set xs)"
    if "set ys \<subseteq> graph_importers g" for xs ys
    using that unfolding set_add_all_def
    by (induction ys arbitrary: xs) (simp_all add: one)
  have "(x, mi) \<in> set g"
    using a(2) by (simp add: getModuleInfo_def map_of_SomeD)
  then have sub: "set (importers mi) \<subseteq> graph_importers g" "set (dynamicImporters mi) \<subseteq> graph_importers g"
    by (auto simp: graph_importers_def)
  let ?ids' = "set_add_all (set_add_all ids (importers mi)) (dynamicImporters mi)"
  have "length ?ids' + card (graph_importers g - set ?ids') = length ids + card (graph_importers g - set ids)"
    by (simp add: many sub)
  with a(1) show "((g, bc, ?ids', Suc i), (g, bc, ids, i))
      \<in> measure (\<lambda>(g, bc, ids, i). length ids + card (graph_importers g - set ids) - i)"
    by simp
qed

text \<open>\<open>String_replace\<close> is \<open>String.prototype.replace\<close> with a string pattern and a
  replacement without \<open>$\<close>: the first occurrence is replaced, and a text without
  occurrence is returned as it is.\<close>

fun String_replace :: "string \<Rightarrow> string \<Rightarrow> string \<Rightarrow> string" where
  "String_replace pat rep [] = (if pat = [] then rep else [])"
| "String_replace pat rep (c # cs) =
     (if prefix pat (c # cs) then rep @ drop (length pat) (c # cs)
      else c # String_replace pat rep cs)"

definition propagate :: "module_graph \<Rightarrow> string list \<Rightarrow> chunk \<Rightarrow> propagation" where
  "propagate g bc chunk =
     propagate_loop g bc (new_Set (chunk_imports chunk @ chunk_dynamicImports chunk)) 0"

definition inject_loader :: "module_graph \<Rightarrow> string list \<Rightarrow> chunk \<Rightarrow> string \<Rightarrow> string" where
  \<open>inject_loader g bc chunk code =
     (if hasBytecodeMoudle (propagate g bc chunk)
      then String_replace ''"use strict";'' requireBytecodeLoaderStr code
      else code)\<close>

subsection \<open>writeBundle\<close>

record env =
  path_resolve :: "string \<Rightarrow> string \<Rightarrow> string"
  path_dirname :: "string \<Rightarrow> string"
  path_basename :: "string \<Rightarrow> string"
  normalizePath :: "string \<Rightarrow> string"
  RegExp_new :: "string \<Rightarrow> matcher option"
  child_process :: "string \<Rightarrow> error + proc_event list"
  module_graph :: module_graph

datatype file_content = Text string | Binary buffer

datatype fs_op =
    WriteFile string file_content
  | Rename string string
  | Unlink string

text \<open>What one chunk's asynchronous function does: the file operations in their order,
  the records pushed on \<open>bytecodeFiles\<close>, and how its promise settles.\<close>

record chunk_result =
  ops :: "fs_op list"
  pushed :: "(string \<times> nat) list"
  outcome :: "unit promise"

definition keepBundle :: "env \<Rightarrow> string \<Rightarrow> fs_op list" where
  "keepBundle e chunkFileName =
     (let newFileName = path_resolve e (path_dirname e chunkFileName)
                          (''_'' @ path_basename e chunkFileName)
      in [Rename chunkFileName newFileName])"

definition entry_stub :: "env \<Rightarrow> string \<Rightarrow> string" where
  \<open>entry_stub e name =
     requireBytecodeLoaderStr @ ''\<newline>require("./'' @ normalizePath e (name @ ''c'') @ ''");\<newline>''\<close>

definition process_chunk ::
  "env \<Rightarrow> plugin \<Rightarrow> matcher \<Rightarrow> string \<Rightarrow> string \<Rightarrow> chunk \<Rightarrow> chunk_result" where
  "process_chunk e p bytecodeRE outDir name chunk =
     (if chunk_type chunk = chunk_kind then
        (case rewrite_references bytecodeRE (chunk_code chunk) of
           Inl err \<Rightarrow> \<lparr>ops = [], pushed = [], outcome = Rejected err\<rparr>
         | Inr code \<Rightarrow>
             (let chunkFileName = path_resolve e outDir name in
              if name \<in> set (bytecodeChunks p) then
                (case compileToBytecode (child_process e code) of
                   Pending \<Rightarrow> \<lparr>ops = [], pushed = [], outcome = Pending\<rparr>
                 | Rejected err \<Rightarrow> \<lparr>ops = [], pushed = [], outcome = Rejected err\<rparr>
                 | Resolved bytecodeBuffer \<Rightarrow>
                     (let bytecodeFileName = path_resolve e outDir (name @ ''c'');
                          written = [WriteFile bytecodeFileName (Binary bytecodeBuffer)];
                          replaced =
                            (if isEntry chunk then
                               (if \<not> removeBundleJS p then keepBundle e chunkFileName else [])
                               @ [WriteFile chunkFileName (Text (entry_stub e name))]
                             else if removeBundleJS p then [Unlink chunkFileName]
                             else keepBundle e chunkFileName)
                      in \<lparr>ops = written @ replaced,
                          pushed = [(name @ ''c'', length bytecodeBuffer)],
                          outcome = Resolved ()\<rparr>))
              else
                (let code' = (if isEntry chunk
                              then inject_loader (module_graph e) (bytecodeChunks p) chunk code
                              else code)
                 in \<lparr>ops = [WriteFile chunkFileName (Text code')], pushed = [],
                     outcome = Resolved ()\<rparr>)))
      else \<lparr>ops = [], pushed = [], outcome = Resolved ()\<rparr>)"

text \<open>\<open>output\<close> is the bundle, file name by file name. The chunks are handled
  concurrently, so the result keeps one \<open>chunk_result\<close> per file name and fixes no
  order between the operations of different chunks.\<close>

definition writeBundle ::
  "env \<Rightarrow> plugin \<Rightarrow> string \<Rightarrow> (string \<times> chunk) list \<Rightarrow> error + (string \<times> chunk_result) list" where
  "writeBundle e p outDir output =
     (if useInRenderer p \<or> length (bytecodeChunks p) = 0 then Inr []
      else
        (case RegExp_new e (bytecodeRE_source (bytecodeChunks p)) of
           None \<Rightarrow> Inl RegExpSyntaxError
         | Some bytecodeRE \<Rightarrow>
             Inr (map (\<lambda>(name, chunk). (name, process_chunk e p bytecodeRE outDir name chunk))
                    output)))"

section \<open>The loader emitted as bytecode-loader.js\<close>

text \<open>
  The loader is the JavaScript text of \<open>bytecodeModuleLoaderCode\<close>. Its state is the
  variable \<open>dummyBytecode\<close>; \<open>cachedData\<close> is what \<open>createCachedData\<close> returns for the
  empty script, and \<open>accepts\<close> tells whether the engine takes the cached data for a
  source. A JavaScript string is the list of its UTF-16 code units, and the engine
  builds no string longer than its maximal string length \<open>maxLength\<close>, a parameter:
  \<open>repeat\<close> and \<open>+\<close> throw a \<open>RangeError\<close> instead.
\<close>

type_synonym js_string = "16 word list"

definition FLAG_HASH_OFFSET :: nat where
  "FLAG_HASH_OFFSET = 12"

definition SOURCE_HASH_OFFSET :: nat where
  "SOURCE_HASH_OFFSET = 8"

definition Buffer_slice :: "buffer \<Rightarrow> nat \<Rightarrow> nat \<Rightarrow> buffer" where
  "Buffer_slice b start finish = take (finish - start) (drop start b)"

text \<open>\<open>source.copy(target, targetStart)\<close> copies as many bytes as fit in the target.\<close>

definition Buffer_copy :: "buffer \<Rightarrow> buffer \<Rightarrow> nat \<Rightarrow> buffer" where
  "Buffer_copy source target targetStart =
     (if length target \<le> targetStart then target
      else
        let nb = min (length source) (length target - targetStart)
        in take targetStart target @ take nb source @ drop (targetStart + nb) target)"

definition setFlagHashHeader :: "buffer \<Rightarrow> buffer option \<Rightarrow> buffer \<Rightarrow> buffer option \<times> buffer" where
  "setFlagHashHeader cachedData dummyBytecode bytecodeBuffer =
     (let dummy = (case dummyBytecode of None \<Rightarrow> cachedData | Some d \<Rightarrow> d)
      in (Some dummy,
          Buffer_copy (Buffer_slice dummy FLAG_HASH_OFFSET (FLAG_HASH_OFFSET + 4))
            bytecodeBuffer FLAG_HASH_OFFSET))"

definition getSourceHashHeader :: "buffer \<Rightarrow> buffer" where
  "getSourceHashHeader bytecodeBuffer =
     Buffer_slice bytecodeBuffer SOURCE_HASH_OFFSET (SOURCE_HASH_OFFSET + 4)"

text \<open>\<open>buffer[i]\<close> as an operand of \<open><<\<close> and \<open>|\<close>: the byte as a 32-bit integer, and 0 for
  the \<open>undefined\<close> of an index beyond the end.\<close>

definition Buffer_at :: "buffer \<Rightarrow> nat \<Rightarrow> 32 word" where
  "Buffer_at b i = (if i < length b then ucast (b ! i) else 0)"

text \<open>The bitwise operators work on 32-bit integers and give a signed result.\<close>

definition buffer2Number :: "buffer \<Rightarrow> int" where
  "buffer2Number b =
     (let ret = (0 :: 32 word);
          ret = ret OR push_bit 24 (Buffer_at b 3);
          ret = ret OR push_bit 16 (Buffer_at b 2);
          ret = ret OR push_bit 8 (Buffer_at b 1);
          ret = ret OR Buffer_at b 0
      in sint ret)"

definition String_repeat :: "nat \<Rightarrow> js_string \<Rightarrow> int \<Rightarrow> error + js_string" where
  "String_repeat maxLength str count =
     (if count < 0 then Inl (RangeError ''Invalid count value'')
      else if int maxLength < int (length str) * count
        then Inl (RangeError ''Invalid string length'')
      else Inr (concat (replicate (nat count) str)))"

definition String_concat :: "nat \<Rightarrow> js_string \<Rightarrow> js_string \<Rightarrow> error + js_string" where
  "String_concat maxLength a b =
     (if maxLength < length a + length b then Inl (RangeError ''Invalid string length'')
      else Inr (a @ b))"

definition dummyCode_of :: "nat \<Rightarrow> int \<Rightarrow> error + js_string" where
  "dummyCode_of maxLength len =
     (if len > 1 then
        (case String_repeat maxLength [0x200B] (len - 2) of
           Inl e \<Rightarrow> Inl e
         | Inr filler \<Rightarrow>
             (case String_concat maxLength [0x22] filler of
                Inl e \<Rightarrow> Inl e
              | Inr opened \<Rightarrow> String_concat maxLength opened [0x22]))
      else Inr [])"

record loaded =
  loader_dummyBytecode :: "buffer option"
  patched :: buffer
  dummyCode :: js_string

definition load_jsc ::
  "(js_string \<Rightarrow> buffer \<Rightarrow> bool) \<Rightarrow> nat \<Rightarrow> buffer \<Rightarrow> buffer option \<Rightarrow> buffer
   \<Rightarrow> error + loaded" where
  "load_jsc accepts maxLength cachedData dummyBytecode bytecodeBuffer =
     (let (dummy', buf) = setFlagHashHeader cachedData dummyBytecode bytecodeBuffer;
          len = buffer2Number (getSourceHashHeader buf)
      in case dummyCode_of maxLength len of
           Inl e \<Rightarrow> Inl e
         | Inr src \<Rightarrow>
             if \<not> accepts src buf then Inl CachedDataRejected
             else Inr \<lparr>loader_dummyBytecode = dummy', patched = buf, dummyCode = src\<rparr>)"

section \<open>Notions used in the statements\<close>

text \<open>Events that call \<open>resolve\<close> or \<open>reject\<close>, events of the diagnostic stream, and the
  bytes a sequence of events delivers on the output stream.\<close>

fun settles :: "proc_event \<Rightarrow> bool" where
  "settles StdoutEnd = True"
| "settles (ProcExit status) = True"
| "settles (ProcError err) = True"
| "settles other = False"

fun is_stderr :: "proc_event \<Rightarrow> bool" where
  "is_stderr (StderrData chunk) = True"
| "is_stderr (StderrError err) = True"
| "is_stderr other = False"

fun stdout_bytes :: "proc_event list \<Rightarrow> buffer" where
  "stdout_bytes [] = []"
| "stdout_bytes (StdoutData chunk # evs) = chunk @ stdout_bytes evs"
| "stdout_bytes (other # evs) = stdout_bytes evs"

text \<open>The overwrite that the loop of \<open>writeBundle\<close> makes for a match.\<close>

definition edit_of :: "string \<Rightarrow> nat \<times> nat \<Rightarrow> nat \<times> nat \<times> string" where
  "edit_of code m = (fst m, fst m + snd m, take (snd m) (drop (fst m) code) @ ''c'')"

text \<open>Matches that follow each other from \<open>pos\<close> on, none of them empty.\<close>

fun spans_from :: "nat \<Rightarrow> (nat \<times> nat) list \<Rightarrow> bool" where
  "spans_from pos [] = True"
| "spans_from pos (m # ms) = (pos \<le> fst m \<and> 0 < snd m \<and> spans_from (fst m + snd m) ms)"

text \<open>The number of matches that end at or before position \<open>j\<close>.\<close>

definition ended_before :: "(nat \<times> nat) list \<Rightarrow> nat \<Rightarrow> nat" where
  "ended_before ms j = length (filter (\<lambda>m. fst m + snd m \<le> j) ms)"

text \<open>
  A regular-expression engine for chunk names made of ordinary characters and dots,
  used to run the model on examples: each name is one alternative, tried in order at
  the leftmost position; a dot stands for any character but a line terminator, any
  other character for itself.
\<close>

fun matches_here :: "string \<Rightarrow> string \<Rightarrow> bool" where
  "matches_here [] s = True"
| "matches_here (p # ps) [] = False"
| "matches_here (p # ps) (c # cs) =
     ((if p = CHR ''.'' then c \<noteq> CHR 0x0A \<and> c \<noteq> CHR 0x0D else p = c) \<and> matches_here ps cs)"

fun search_from :: "string list \<Rightarrow> string \<Rightarrow> nat \<Rightarrow> (nat \<times> nat) option" where
  "search_from names [] index =
     (case find (\<lambda>n. matches_here n []) names of
        None \<Rightarrow> None
      | Some n \<Rightarrow> Some (index, length n))"
| "search_from names (c # cs) index =
     (case find (\<lambda>n. matches_here n (c # cs)) names of
        None \<Rightarrow> search_from names cs (Suc index)
      | Some n \<Rightarrow> Some (index, length n))"

definition names_matcher :: "string list \<Rightarrow> matcher" where
  "names_matcher names s lastIndex = search_from names (drop lastIndex s) lastIndex"

text \<open>
  The frontier of the specification: the least set that holds the seeds and, with
  every module that is known and not external, the modules that import it.
\<close>

definition expansion :: "module_graph \<Rightarrow> string \<Rightarrow> string list" where
  "expansion g moduleId =
     (case getModuleInfo g moduleId of
        None \<Rightarrow> []
      | Some moduleInfo \<Rightarrow>
          if isExternal moduleInfo then []
          else importers moduleInfo @ dynamicImporters moduleInfo)"

inductive_set frontier :: "module_graph \<Rightarrow> string set \<Rightarrow> string set"
  for g :: module_graph and seeds :: "string set" where
  seed: "x \<in> seeds \<Longrightarrow> x \<in> frontier g seeds"
| importer: "m \<in> frontier g seeds \<Longrightarrow> x \<in> set (expansion g m) \<Longrightarrow> x \<in> frontier g seeds"

text \<open>
  The transitive dependencies in the specification's words: the least set that holds
  the seeds and every module that a member imports. The graph records that \<open>m\<close>
  imports \<open>x\<close> as \<open>m\<close> among the importers or dynamic importers of \<open>x\<close>.
\<close>

inductive_set dependencies :: "module_graph \<Rightarrow> string set \<Rightarrow> string set"
  for g :: module_graph and seeds :: "string set" where
  direct: "x \<in> seeds \<Longrightarrow> x \<in> dependencies g seeds"
| imported: "m \<in> dependencies g seeds \<Longrightarrow> getModuleInfo g x = Some moduleInfo \<Longrightarrow>
     m \<in> set (importers moduleInfo) \<union> set (dynamicImporters moduleInfo) \<Longrightarrow>
     x \<in> dependencies g seeds"

text \<open>The four bytes at offset 8 read as a little-endian two's-complement integer.\<close>

definition int32_le :: "byte \<Rightarrow> byte \<Rightarrow> byte \<Rightarrow> byte \<Rightarrow> int" where
  "int32_le b0 b1 b2 b3 =
     (let v = uint b0 + 256 * uint b1 + 65536 * uint b2 + 16777216 * uint b3
      in if v < 2147483648 then v else v - 4294967296)"

section \<open>Values for running the model\<close>

text \<open>A build with the single alias \<open>index\<close>: the entry \<open>index.js\<close> is compiled, the
  entry \<open>main.js\<close> and the shared chunk \<open>utils.js\<close> are not.\<close>

definition example_paths :: env where
  "example_paths =
     \<lparr>path_resolve = (\<lambda>dir file. dir @ ''/'' @ file),
      path_dirname = (\<lambda>p. rev (drop 1 (dropWhile (\<lambda>c. c \<noteq> CHR ''/'') (rev p)))),
      path_basename = (\<lambda>p. rev (takeWhile (\<lambda>c. c \<noteq> CHR ''/'') (rev p))),
      normalizePath = (\<lambda>id. id),
      RegExp_new = (\<lambda>src. if src = ''(index.js)'' then Some (names_matcher [''index.js'']) else None),
      child_process = (\<lambda>code. Inr [StdoutData [1, 2], StderrData [7], StdoutData [3], ProcExit 0]),
      module_graph =
        [(''utils.js'', \<lparr>isExternal = False, importers = [''index.js''], dynamicImporters = []\<rparr>)]\<rparr>"

definition example_plugin :: plugin where
  "example_plugin =
     \<lparr>chunkAlias_list = [''index''], transformArrowFunctions = True, removeBundleJS = True,
      bytecodeChunks = [''index.js''], useInRenderer = False\<rparr>"

definition example_index :: chunk where
  \<open>example_index =
     \<lparr>chunk_type = chunk_kind, chunk_name = ''index'', chunk_fileName = ''index.js'',
      chunk_code = ''"use strict";f()'', isEntry = True,
      chunk_imports = [], chunk_dynamicImports = []\<rparr>\<close>

definition example_main :: chunk where
  \<open>example_main =
     \<lparr>chunk_type = chunk_kind, chunk_name = ''main'', chunk_fileName = ''main.js'',
      chunk_code = ''"use strict";require("./index.js")'', isEntry = True,
      chunk_imports = [''utils.js''], chunk_dynamicImports = []\<rparr>\<close>

text \<open>An engine that takes every cached data. For \<open>maxLength\<close> the examples take
  1073741799, that is \<open>2^30 - 25\<close>, the largest maximal string length of V8 (64-bit
  builds; other builds have smaller ones).\<close>

definition accepts_all :: "js_string \<Rightarrow> buffer \<Rightarrow> bool" where
  "accepts_all src b = True"

text \<open>What \<open>exec\<close> answers for the pattern \<open>(x*)\<close>, built from the chunk file name \<open>x*\<close>:
  at \<open>lastIndex\<close> the longest run of \<open>x\<close> that starts there, which may be empty.\<close>

definition x_star_matcher :: matcher where
  "x_star_matcher s lastIndex =
     Some (lastIndex, length (takeWhile (\<lambda>c. c = CHR ''x'') (drop lastIndex s)))"

text \<open>Vite's \<open>normalizePath\<close> is \<open>path.posix.normalize\<close> after backslashes are turned into
  slashes. On a relative path of plain segments it drops a leading \<open>./\<close> and changes
  nothing else; this is all of it that the example needs.\<close>

definition drop_dot_segment :: "string \<Rightarrow> string" where
  "drop_dot_segment p = (if prefix ''./'' p then drop 2 p else p)"

definition example_vite :: env where
  "example_vite = example_paths\<lparr>normalizePath := drop_dot_segment\<rparr>"

definition example_dot_plugin :: plugin where
  "example_dot_plugin = example_plugin\<lparr>bytecodeChunks := [''./index.js'']\<rparr>"

text \<open>The shared chunk \<open>utils.js\<close> is imported by the entries \<open>app.js\<close> and \<open>index.js\<close>;
  \<open>app.js\<close> and \<open>plain.js\<close> import nothing but \<open>utils.js\<close>.\<close>

definition example_shared :: env where
  "example_shared = example_paths\<lparr>module_graph :=
     [(''utils.js'', \<lparr>isExternal = False, importers = [''app.js'', ''index.js''],
                      dynamicImporters = []\<rparr>)]\<rparr>"

definition example_app :: chunk where
  \<open>example_app =
     \<lparr>chunk_type = chunk_kind, chunk_name = ''app'', chunk_fileName = ''app.js'',
      chunk_code = ''"use strict";f()'', isEntry = True,
      chunk_imports = [''utils.js''], chunk_dynamicImports = []\<rparr>\<close>

definition example_plain :: chunk where
  "example_plain =
     \<lparr>chunk_type = chunk_kind, chunk_name = ''plain'', chunk_fileName = ''plain.js'',
      chunk_code = ''f()'', isEntry = True,
      chunk_imports = [''utils.js''], chunk_dynamicImports = []\<rparr>"

text \<open>A graph in which two modules import each other.\<close>

definition example_cycle :: module_graph where
  "example_cycle =
     [(''utils.js'', \<lparr>isExternal = False, importers = [''main.js''], dynamicImporters = []\<rparr>),
      (''main.js'', \<lparr>isExternal = False, importers = [''utils.js''],
                     dynamicImporters = [''utils.js'', ''other.js'']\<rparr>)]"

section \<open>The compiler client\<close>

lemma settled_stays:
  "settled s \<noteq> Pending \<Longrightarrow> settled (foldl on_event s evs) = settled s"
proof (induction evs arbitrary: s)
  case Nil
  then show ?case by simp
next
  case (Cons ev evs)
  have "settled (on_event s ev) = settled s"
    using Cons.prems by (cases ev) (simp_all add: resolve_def reject_def)
  with Cons show ?case by simp
qed

lemma quiet_prefix:
  "\<forall>ev \<in> set pre. \<not> settles ev \<Longrightarrow>
   foldl on_event s pre = s\<lparr>data := data s @ stdout_bytes pre\<rparr>"
proof (induction pre arbitrary: s)
  case Nil
  then show ?case by simp
next
  case (Cons ev pre)
  then show ?case by (cases ev) simp_all
qed

lemma foldl_skip_stderr:
  "foldl on_event s (filter (\<lambda>ev. \<not> is_stderr ev) evs) = foldl on_event s evs"
proof (induction evs arbitrary: s)
  case Nil
  then show ?case by simp
next
  case (Cons ev evs)
  then show ?case by (cases ev) simp_all
qed

lemma rejected_needs_error:
  "settled (foldl on_event s evs) = Rejected e \<Longrightarrow> settled s \<noteq> Rejected e \<Longrightarrow>
   \<exists>err. e = ProcessError err \<and> ProcError err \<in> set evs"
proof (induction evs arbitrary: s)
  case Nil
  then show ?case by simp
next
  case (Cons ev evs)
  show ?case
  proof (cases "settled (on_event s ev) = Rejected e")
    case True
    with Cons.prems(2) show ?thesis
      by (cases ev) (auto simp: resolve_def reject_def split: if_splits)
  next
    case False
    from Cons.IH [OF _ False] Cons.prems(1) show ?thesis by auto
  qed
qed

lemma resolved_at_first_settle:
  assumes quiet: "\<forall>ev \<in> set pre. \<not> settles ev"
    and ev: "ev = StdoutEnd \<or> ev = ProcExit status"
  shows "settled (foldl on_event \<lparr>data = [], settled = Pending\<rparr> (pre @ ev # post))
         = Resolved (stdout_bytes pre)"
proof -
  let ?s = "\<lparr>data = [], settled = Pending\<rparr>"
  have "foldl on_event ?s pre = ?s\<lparr>data := stdout_bytes pre\<rparr>"
    using quiet_prefix [OF quiet, of ?s] by simp
  then have "settled (on_event (foldl on_event ?s pre) ev) = Resolved (stdout_bytes pre)"
    using ev by (auto simp: resolve_def)
  then show ?thesis by (simp add: settled_stays)
qed

lemma resolved_without_error:
  assumes "\<forall>err. ProcError err \<notin> set pre"
  shows "settled (foldl on_event \<lparr>data = [], settled = Pending\<rparr> (pre @ ProcExit status # post))
         = Resolved (stdout_bytes (takeWhile (\<lambda>ev. \<not> settles ev) pre))"
proof (cases "\<forall>ev \<in> set pre. \<not> settles ev")
  case True
  then have "takeWhile (\<lambda>ev. \<not> settles ev) pre = pre"
    by (auto intro: takeWhile_eq_all_conv [THEN iffD2])
  moreover have "settled (foldl on_event \<lparr>data = [], settled = Pending\<rparr> (pre @ ProcExit status # post))
         = Resolved (stdout_bytes pre)"
    by (rule resolved_at_first_settle [OF True]) simp
  ultimately show ?thesis by (simp only:)
next
  case False
  let ?a = "takeWhile (\<lambda>ev. \<not> settles ev) pre"
  let ?b = "dropWhile (\<lambda>ev. \<not> settles ev) pre"
  from False have "?b \<noteq> []" by (auto simp: dropWhile_eq_Nil_conv)
  then obtain ev0 b' where b: "?b = ev0 # b'" by (cases ?b) auto
  have "settles ev0"
    using hd_dropWhile [of "\<lambda>ev. \<not> settles ev" pre] \<open>?b \<noteq> []\<close> b by simp
  have split: "pre = ?a @ ev0 # b'"
    using takeWhile_dropWhile_id [of "\<lambda>ev. \<not> settles ev" pre] b by simp
  then have "ev0 \<in> set pre" by (metis in_set_conv_decomp)
  with assms \<open>settles ev0\<close> have ev0: "ev0 = StdoutEnd \<or> (\<exists>st. ev0 = ProcExit st)"
    by (cases ev0) auto
  have quiet: "\<forall>ev \<in> set ?a. \<not> settles ev"
    by (auto dest: set_takeWhileD)
  have first: "settled (foldl on_event \<lparr>data = [], settled = Pending\<rparr>
                   (?a @ ev0 # b' @ ProcExit status # post)) = Resolved (stdout_bytes ?a)"
    using ev0 resolved_at_first_settle [OF quiet] by blast
  have whole: "pre @ ProcExit status # post = ?a @ ev0 # b' @ ProcExit status # post"
    using split by (metis append.assoc append_Cons)
  show ?thesis by (subst whole) (rule first)
qed

text \<open>
  C3. Whenever the process exits, with any exit status, and no \<open>error\<close> event came
  before, the promise is resolved with the bytes of the output stream received
  before the first \<open>end\<close> of that stream or \<open>exit\<close>. The promise is rejected only when the
  executor throws before the process runs or the process emits \<open>error\<close>, the event
  of a failed spawn. Events of the diagnostic stream never change how the promise
  settles.
\<close>

theorem compileToBytecode_settles:
  "((\<forall>err. ProcError err \<notin> set pre) \<longrightarrow>
      compileToBytecode (Inr (pre @ ProcExit status # post))
      = Resolved (stdout_bytes (takeWhile (\<lambda>ev. \<not> settles ev) pre)))
   \<and> (compileToBytecode run = Rejected e \<longrightarrow>
        run = Inl e \<or> (\<exists>events err. run = Inr events \<and> e = ProcessError err
                                     \<and> ProcError err \<in> set events))
   \<and> compileToBytecode (Inr (filter (\<lambda>ev. \<not> is_stderr ev) events))
     = compileToBytecode (Inr events)"
proof (intro conjI impI)
  assume "\<forall>err. ProcError err \<notin> set pre"
  then show "compileToBytecode (Inr (pre @ ProcExit status # post))
             = Resolved (stdout_bytes (takeWhile (\<lambda>ev. \<not> settles ev) pre))"
    using resolved_without_error [of pre status post]
    by (simp add: compileToBytecode_def del: foldl_append)
next
  assume rej: "compileToBytecode run = Rejected e"
  show "run = Inl e \<or> (\<exists>events err. run = Inr events \<and> e = ProcessError err
                                     \<and> ProcError err \<in> set events)"
  proof (cases run)
    case (Inl thrown)
    with rej show ?thesis by (simp add: compileToBytecode_def)
  next
    case (Inr events)
    with rej have "settled (foldl on_event \<lparr>data = [], settled = Pending\<rparr> events) = Rejected e"
      by (simp add: compileToBytecode_def)
    then have "\<exists>err. e = ProcessError err \<and> ProcError err \<in> set events"
      by (rule rejected_needs_error) simp
    with Inr show ?thesis by simp
  qed
next
  show "compileToBytecode (Inr (filter (\<lambda>ev. \<not> is_stderr ev) events))
        = compileToBytecode (Inr events)"
    by (simp add: compileToBytecode_def foldl_skip_stderr)
qed

theorem compileToBytecode_settles_witness:
  "compileToBytecode (Inr ([StdoutData [1, 2], StderrData [7], StdoutData [3]] @ ProcExit 1 # [StdoutData [4]]))
     = Resolved [1, 2, 3]
   \<and> compileToBytecode (Inr [StdoutData [1], ProcError ''ENOENT'', ProcExit 1])
     = Rejected (ProcessError ''ENOENT'')
   \<and> ProcError ''ENOENT'' \<in> set [StdoutData [1], ProcError ''ENOENT'', ProcExit 1]
   \<and> compileToBytecode (Inr (filter (\<lambda>ev. \<not> is_stderr ev) [StderrData [7], StdoutData [3], StdoutEnd]))
     = Resolved [3]"
  using compileToBytecode_settles
    [of "[StdoutData [1, 2], StderrData [7], StdoutData [3]]" 1 "[StdoutData [4]]"
        "Inr [StdoutData [1], ProcError ''ENOENT'', ProcExit 1]" "ProcessError ''ENOENT''"
        "[StderrData [7], StdoutData [3], StdoutEnd]"]
  by (simp add: compileToBytecode_def resolve_def reject_def)

section \<open>The plugin hooks\<close>

text \<open>
  C9. Whatever the options are, \<open>bytecodePlugin\<close> returns null when the environment
  variable \<open>NODE_ENV_ELECTRON_VITE\<close> is unset or differs from \<open>production\<close>: the test
  comes before the options are read.
\<close>

theorem bytecodePlugin_guard:
  "NODE_ENV_ELECTRON_VITE \<noteq> Some ''production'' \<Longrightarrow>
   bytecodePlugin NODE_ENV_ELECTRON_VITE options = None"
  by (simp add: bytecodePlugin_def)

theorem bytecodePlugin_guard_witness:
  "Some ''development'' \<noteq> Some ''production''
   \<and> bytecodePlugin (Some ''development'')
        (Some \<lparr>opt_chunkAlias = Some (AliasString ''index''),
               opt_transformArrowFunctions = None, opt_removeBundleJS = Some False\<rparr>) = None"
  using bytecodePlugin_guard
    [of "Some ''development''"
        "Some \<lparr>opt_chunkAlias = Some (AliasString ''index''),
               opt_transformArrowFunctions = None, opt_removeBundleJS = Some False\<rparr>"]
  by simp

lemma configured_aliases:
  "bytecodePlugin (Some ''production'') options = Some p \<Longrightarrow>
   chunkAlias_list p =
     (case options of
        None \<Rightarrow> []
      | Some opts \<Rightarrow>
          (case opt_chunkAlias opts of
             None \<Rightarrow> []
           | Some (AliasString a) \<Rightarrow> [a]
           | Some (AliasArray as) \<Rightarrow> as))"
  by (auto simp: bytecodePlugin_def Let_def split: option.splits chunkAlias_option.splits)

text \<open>
  C4. A chunk name is selected if and only if the configured alias set is empty or
  the name is equal to one of the aliases.
\<close>

theorem isBytecodeChunk_iff:
  "isBytecodeChunk p chunkName \<longleftrightarrow>
     set (chunkAlias_list p) = {} \<or> chunkName \<in> set (chunkAlias_list p)"
  by (auto simp: isBytecodeChunk_def list_ex_iff)

text \<open>
  C8. When the resolved configuration holds the renderer preset plugin,
  \<open>configResolved\<close> logs one warning, and afterwards \<open>renderChunk\<close> returns null for
  every chunk and leaves the plugin as it is, \<open>generateBundle\<close> emits no file and
  \<open>writeBundle\<close> performs no file operation.
\<close>

theorem renderer_disabled:
  assumes "''vite:electron-renderer-preset-config'' \<in> set (config_plugins resolvedConfig)"
    and "configResolved yellow p0 resolvedConfig = (p, logged)"
  shows "logged = [Warn (yellow ''bytecodePlugin is not support renderers'')]
       \<and> renderChunk babel p code chunk = Inr (p, None)
       \<and> generateBundle loaderCode p = []
       \<and> writeBundle e p outDir output = Inr []"
proof -
  from assms have "useInRenderer p"
    and "logged = [Warn (yellow ''bytecodePlugin is not support renderers'')]"
    by (auto simp: configResolved_def Let_def list_ex_iff)
  then show ?thesis
    by (simp add: renderChunk_def generateBundle_def writeBundle_def)
qed

theorem renderer_disabled_witness:
  "renderChunk (\<lambda>c. Inr (Some c))
     (example_plugin\<lparr>useInRenderer := True\<rparr>) (chunk_code example_index) example_index
     = Inr (example_plugin\<lparr>useInRenderer := True\<rparr>, None)
   \<and> generateBundle [''x''] (example_plugin\<lparr>useInRenderer := True\<rparr>) = []
   \<and> writeBundle example_paths (example_plugin\<lparr>useInRenderer := True\<rparr>) ''out''
       [(''index.js'', example_index)] = Inr []"
  using renderer_disabled
    [of "\<lparr>config_plugins = [''vite:electron-renderer-preset-config'', ''vite:bytecode'']\<rparr>"
        "\<lambda>s. s" example_plugin "example_plugin\<lparr>useInRenderer := True\<rparr>"
        "[Warn ''bytecodePlugin is not support renderers'']"
        "\<lambda>c. Inr (Some c)" "chunk_code example_index" example_index "[''x'']"
        example_paths "''out''" "[(''index.js'', example_index)]"]
  by (simp add: configResolved_def)

text \<open>
  C5, as amended. For a chunk that is an entry and is selected for compilation, once
  its code is compiled, the last file operation writes, under the chunk's own file
  name, the three lines \<open>"use strict";\<close>, \<open>require("./bytecode-loader.js");\<close> and
  \<open>require("./<path>");\<close>, separated by one newline and ended by one, where \<open><path>\<close>
  is what Vite's \<open>normalizePath\<close> returns for the chunk's output file name followed by
  \<open>c\<close>. Where \<open>normalizePath\<close> returns its argument unchanged, \<open><path>\<close> is the file name
  followed by \<open>c\<close>.
\<close>

theorem entry_stub_literal:
  assumes "chunk_type chunk = chunk_kind" and "isEntry chunk"
    and "name \<in> set (bytecodeChunks p)"
    and "rewrite_references bytecodeRE (chunk_code chunk) = Inr code"
    and "compileToBytecode (child_process e code) = Resolved bytecodeBuffer"
  shows \<open>ops (process_chunk e p bytecodeRE outDir name chunk) =
           WriteFile (path_resolve e outDir (name @ ''c'')) (Binary bytecodeBuffer)
           # (if removeBundleJS p then [] else keepBundle e (path_resolve e outDir name))
           @ [WriteFile (path_resolve e outDir name)
                (Text (''"use strict";\<newline>require("./bytecode-loader.js");\<newline>require("./''
                       @ normalizePath e (name @ ''c'') @ ''");\<newline>''))]
         \<and> (normalizePath e (name @ ''c'') = name @ ''c'' \<longrightarrow>
             ops (process_chunk e p bytecodeRE outDir name chunk) =
               WriteFile (path_resolve e outDir (name @ ''c'')) (Binary bytecodeBuffer)
               # (if removeBundleJS p then [] else keepBundle e (path_resolve e outDir name))
               @ [WriteFile (path_resolve e outDir name)
                    (Text (''"use strict";\<newline>require("./bytecode-loader.js");\<newline>require("./''
                           @ name @ ''c");\<newline>''))])\<close>
  using assms
  by (simp add: process_chunk_def entry_stub_def requireBytecodeLoaderStr_def Let_def)

theorem entry_stub_literal_witness:
  \<open>ops (process_chunk example_paths example_plugin (names_matcher [''index.js'']) ''out''
          ''index.js'' example_index) =
     [WriteFile ''out/index.jsc'' (Binary [1, 2, 3]),
      WriteFile ''out/index.js''
        (Text ''"use strict";\<newline>require("./bytecode-loader.js");\<newline>require("./index.jsc");\<newline>'')]\<close>
proof -
  have kind: "chunk_type example_index = chunk_kind" and entry: "isEntry example_index"
    and sel: "''index.js'' \<in> set (bytecodeChunks example_plugin)"
    by (simp_all add: example_index_def example_plugin_def)
  have rw: \<open>rewrite_references (names_matcher [''index.js'']) (chunk_code example_index)
            = Inr ''"use strict";f()''\<close>
    by code_simp
  have comp: \<open>compileToBytecode (child_process example_paths ''"use strict";f()'')
              = Resolved [1, 2, 3]\<close>
    by (simp add: example_paths_def compileToBytecode_def resolve_def)
  show ?thesis
    using entry_stub_literal [OF kind entry sel rw comp, where outDir = "''out''"]
    by (simp add: example_paths_def example_plugin_def)
qed

text \<open>
  The claim as first stated fails for the chunk file name \<open>./index.js\<close>: the stub
  requires \<open>./index.jsc\<close>, which is not the file name with \<open>c\<close> behind it.
\<close>

theorem entry_stub_literal_counterexample:
  \<open>ops (process_chunk example_vite example_dot_plugin (names_matcher [''./index.js'']) ''out''
          ''./index.js'' example_index) =
     [WriteFile ''out/./index.jsc'' (Binary [1, 2, 3]),
      WriteFile ''out/./index.js''
        (Text ''"use strict";\<newline>require("./bytecode-loader.js");\<newline>require("./index.jsc");\<newline>'')]
   \<and> ''"use strict";\<newline>require("./bytecode-loader.js");\<newline>require("./index.jsc");\<newline>''
     \<noteq> ''"use strict";\<newline>require("./bytecode-loader.js");\<newline>require("./'' @ ''./index.js''
        @ ''c");\<newline>''\<close>
proof -
  have rw: \<open>rewrite_references (names_matcher [''./index.js'']) (chunk_code example_index)
            = Inr ''"use strict";f()''\<close>
    by code_simp
  have comp: \<open>compileToBytecode (child_process example_vite ''"use strict";f()'')
              = Resolved [1, 2, 3]\<close>
    by (simp add: example_vite_def example_paths_def compileToBytecode_def resolve_def)
  have np: "normalizePath example_vite (''./index.js'' @ ''c'') = ''index.jsc''"
    by (simp add: example_vite_def drop_dot_segment_def)
  show ?thesis
    using rw comp np
    by (simp add: process_chunk_def entry_stub_def requireBytecodeLoaderStr_def Let_def
        example_vite_def example_paths_def example_dot_plugin_def example_plugin_def
        example_index_def)
qed

section \<open>The loader\<close>

lemma uint_byte_bound: "uint (b :: byte) < 256"
  using uint_bounded [of b] by simp

lemma uint_ucast_byte: "uint (ucast (b :: byte) :: 32 word) = uint b"
  by (rule uint_up_ucast) (simp add: is_up)

lemma uint_shifted_byte:
  "n \<le> 24 \<Longrightarrow> uint (push_bit n (ucast (b :: byte)) :: 32 word) = 2 ^ n * uint b"
proof -
  assume n: "n \<le> 24"
  have "2 ^ n * uint b < 2 ^ n * 2 ^ 8"
    using uint_byte_bound [of b] by simp
  also have "\<dots> = (2::int) ^ (n + 8)" by (simp add: power_add)
  also have "\<dots> \<le> 2 ^ 32" using n by (intro power_increasing) simp_all
  finally have "2 ^ n * uint b < 2 ^ 32" .
  moreover have "0 \<le> 2 ^ n * uint b" by simp
  ultimately have "take_bit 32 (2 ^ n * uint b) = 2 ^ n * uint b"
    by (simp add: take_bit_int_eq_self)
  moreover have "uint (push_bit n (ucast b) :: 32 word) = take_bit 32 (push_bit n (uint b))"
    by (simp add: unsigned_push_bit_eq uint_ucast_byte)
  moreover have "push_bit n (uint b) = 2 ^ n * uint b"
    by (simp add: push_bit_eq_mult mult.commute)
  ultimately show ?thesis by simp
qed

lemma bit_shifted_byte:
  "bit (push_bit n (ucast (b :: byte)) :: 32 word) k \<Longrightarrow> n \<le> k \<and> k < n + 8"
  by (auto simp: bit_simps dest: bit_imp_le_length)


lemma sint_of_uint:
  "sint (w :: 32 word) = (if uint w < 2147483648 then uint w else uint w - 4294967296)"
proof (cases "uint w < 2147483648")
  case True
  have "- (2 ^ 31) \<le> uint w"
    by (rule order_trans [of _ 0]) simp_all
  moreover have "uint w < 2 ^ 31" using True by simp
  ultimately have "signed_take_bit 31 (uint w) = uint w"
    by (rule signed_take_bit_int_eq_self)
  with True show ?thesis by (simp add: sint_uint)
next
  case False
  have lt: "uint w < 4294967296"
    using uint_bounded [of w] by simp
  have "signed_take_bit 31 (uint w) = signed_take_bit 31 (uint w - 4294967296)"
    by (simp add: signed_take_bit_eq_iff_take_bit_eq take_bit_eq_mod)
  also have "\<dots> = uint w - 4294967296"
  proof (rule signed_take_bit_int_eq_self)
    show "- (2 ^ 31) \<le> uint w - 4294967296" using False by simp
    show "uint w - 4294967296 < 2 ^ 31" using lt by simp
  qed
  finally show ?thesis using False by (simp add: sint_uint)
qed


lemma or_eq_add_if_apart:
  fixes x y :: "32 word"
  assumes "\<And>k. bit x k \<Longrightarrow> m \<le> k" and "\<And>k. bit y k \<Longrightarrow> k < m"
  shows "x OR y = x + y"
proof -
  have "x AND y = 0"
  proof (rule bit_eqI)
    fix k
    show "bit (x AND y) k = bit (0 :: 32 word) k"
      using assms(1) [of k] assms(2) [of k] by (auto simp: bit_and_iff)
  qed
  then show ?thesis by (rule disjunctive_add_eq_or [symmetric])
qed

lemma uint_or_bytes:
  fixes b0 b1 b2 b3 :: byte
  shows "uint ((((push_bit 24 (ucast b3) OR push_bit 16 (ucast b2)) OR push_bit 8 (ucast b1))
                OR ucast b0) :: 32 word)
       = uint b0 + 256 * uint b1 + 65536 * uint b2 + 16777216 * uint b3"
proof -
  let ?p3 = "push_bit 24 (ucast b3) :: 32 word"
  let ?p2 = "push_bit 16 (ucast b2) :: 32 word"
  let ?p1 = "push_bit 8 (ucast b1) :: 32 word"
  let ?p0 = "ucast b0 :: 32 word"
  have u3: "uint ?p3 = 16777216 * uint b3" using uint_shifted_byte [of 24 b3] by simp
  have u2: "uint ?p2 = 65536 * uint b2" using uint_shifted_byte [of 16 b2] by simp
  have u1: "uint ?p1 = 256 * uint b1" using uint_shifted_byte [of 8 b1] by simp
  have u0: "uint ?p0 = uint b0" by (rule uint_ucast_byte)
  note bnd = uint_byte_bound [of b0] uint_byte_bound [of b1] uint_byte_bound [of b2]
    uint_byte_bound [of b3]
  have bit0: "bit ?p0 k \<Longrightarrow> k < 8" for k
    using bit_shifted_byte [of 0 b0 k] by simp
  have a: "?p3 OR ?p2 = ?p3 + ?p2"
    by (rule or_eq_add_if_apart [of _ 24]) (auto dest: bit_shifted_byte)
  have ua: "uint (?p3 + ?p2) = uint ?p3 + uint ?p2"
    by (rule uint_add_lem [THEN iffD1]) (use bnd in \<open>simp add: u3 u2\<close>)
  have b: "(?p3 OR ?p2) OR ?p1 = (?p3 OR ?p2) + ?p1"
    by (rule or_eq_add_if_apart [of _ 16]) (auto simp: bit_or_iff dest: bit_shifted_byte)
  have ub: "uint ((?p3 + ?p2) + ?p1) = uint (?p3 + ?p2) + uint ?p1"
    by (rule uint_add_lem [THEN iffD1]) (use bnd in \<open>simp add: ua u3 u2 u1\<close>)
  have c: "((?p3 OR ?p2) OR ?p1) OR ?p0 = ((?p3 OR ?p2) OR ?p1) + ?p0"
    by (rule or_eq_add_if_apart [of _ 8]) (auto simp: bit_or_iff dest: bit_shifted_byte bit0)
  have uc: "uint (((?p3 + ?p2) + ?p1) + ?p0) = uint ((?p3 + ?p2) + ?p1) + uint ?p0"
    by (rule uint_add_lem [THEN iffD1]) (use bnd in \<open>simp add: ub ua u3 u2 u1 u0\<close>)
  have "uint (((?p3 OR ?p2) OR ?p1) OR ?p0) = uint (((?p3 OR ?p2) OR ?p1) + ?p0)"
    by (simp only: c)
  also have "\<dots> = uint (((?p3 OR ?p2) + ?p1) + ?p0)"
    by (simp only: b)
  also have "\<dots> = uint (((?p3 + ?p2) + ?p1) + ?p0)"
    by (simp only: a)
  also have "\<dots> = 16777216 * uint b3 + 65536 * uint b2 + 256 * uint b1 + uint b0"
    by (simp only: uc ub ua u3 u2 u1 u0)
  finally show ?thesis by simp
qed

lemma buffer2Number_bytes:
  "buffer2Number [b0, b1, b2, b3] = int32_le b0 b1 b2 b3"
  by (simp add: buffer2Number_def Buffer_at_def int32_le_def Let_def sint_of_uint uint_or_bytes
           del: push_bit_or)

lemma getSourceHashHeader_bytes:
  "12 \<le> length b \<Longrightarrow> getSourceHashHeader b = [b ! 8, b ! 9, b ! 10, b ! 11]"
proof -
  assume len: "12 \<le> length b"
  have "length (take 4 (drop 8 b)) = 4" using len by simp
  moreover have "take 4 (drop 8 b) ! i = b ! (8 + i)" if "i < 4" for i
    using that len by simp
  ultimately have "take 4 (drop 8 b) = [b ! (8 + 0), b ! (8 + 1), b ! (8 + 2), b ! (8 + 3)]"
    by (intro nth_equalityI) (auto simp: less_Suc_eq numeral_eq_Suc)
  then show ?thesis
    by (simp add: getSourceHashHeader_def Buffer_slice_def SOURCE_HASH_OFFSET_def)
qed

lemma Buffer_copy_length: "length (Buffer_copy source target targetStart) = length target"
  by (auto simp: Buffer_copy_def Let_def min_def)

lemma Buffer_copy_below:
  "take targetStart (Buffer_copy source target targetStart) = take targetStart target"
  by (simp add: Buffer_copy_def Let_def)

lemma patch_keeps_source_hash:
  "getSourceHashHeader (snd (setFlagHashHeader cachedData dummyBytecode b)) = getSourceHashHeader b"
proof -
  let ?b' = "snd (setFlagHashHeader cachedData dummyBytecode b)"
  have "take 12 ?b' = take 12 b"
    by (simp add: setFlagHashHeader_def Let_def FLAG_HASH_OFFSET_def Buffer_copy_below)
  then have "take 4 (drop 8 (take 12 ?b')) = take 4 (drop 8 (take 12 b))"
    by simp
  then show ?thesis
    by (simp add: getSourceHashHeader_def Buffer_slice_def SOURCE_HASH_OFFSET_def drop_take)
qed

lemma patched_buffer:
  assumes "16 \<le> length b" and "16 \<le> length d"
  shows "Buffer_copy (Buffer_slice d 12 (12 + 4)) b 12 = take 12 b @ take 4 (drop 12 d) @ drop 16 b"
proof -
  have "min (length (take 4 (drop 12 d))) (length b - 12) = 4"
    using assms by simp
  then show ?thesis
    using assms by (simp add: Buffer_copy_def Buffer_slice_def Let_def)
qed

text \<open>
  C6. For a bytecode buffer of at least 16 bytes, and a reference compilation of at
  least 16 bytes, the patch makes the bytes 12 to 15 of the buffer equal to the bytes
  12 to 15 of the reference and changes no other byte nor the length. The reference is
  the compilation of the empty script made at the first call and kept in
  \<open>dummyBytecode\<close>: a later call uses the kept one.
\<close>

theorem setFlagHashHeader_patch:
  assumes "16 \<le> length bytecodeBuffer"
    and "reference = (case dummyBytecode of None \<Rightarrow> cachedData | Some kept \<Rightarrow> kept)"
    and "16 \<le> length reference"
    and "setFlagHashHeader cachedData dummyBytecode bytecodeBuffer = (dummy', buf)"
  shows "dummy' = Some reference
       \<and> length buf = length bytecodeBuffer
       \<and> (\<forall>i. 12 \<le> i \<and> i < 16 \<longrightarrow> buf ! i = reference ! i)
       \<and> (\<forall>j < length bytecodeBuffer. j < 12 \<or> 16 \<le> j \<longrightarrow> buf ! j = bytecodeBuffer ! j)"
proof -
  have d: "dummy' = Some reference"
    using assms(2,4) by (auto simp: setFlagHashHeader_def Let_def)
  have buf: "buf = take 12 bytecodeBuffer @ take 4 (drop 12 reference) @ drop 16 bytecodeBuffer"
    using assms(2,4) patched_buffer [OF assms(1,3)]
    by (auto simp: setFlagHashHeader_def Let_def FLAG_HASH_OFFSET_def)
  have len: "length buf = length bytecodeBuffer"
    using assms(1,3) by (simp add: buf)
  have inside: "buf ! i = reference ! i" if "12 \<le> i" "i < 16" for i
  proof -
    have "buf ! i = (take 4 (drop 12 reference) @ drop 16 bytecodeBuffer) ! (i - 12)"
      using that assms(1) by (simp add: buf nth_append)
    also have "\<dots> = take 4 (drop 12 reference) ! (i - 12)"
      using that assms(3) by (simp add: nth_append) arith
    also have "\<dots> = reference ! i"
    proof -
      have "i - 12 < 4" using that by arith
      then show ?thesis using that assms(3) by simp
    qed
    finally show ?thesis .
  qed
  have outside: "buf ! j = bytecodeBuffer ! j" if "j < length bytecodeBuffer" "j < 12 \<or> 16 \<le> j" for j
  proof (cases "j < 12")
    case True
    then show ?thesis using assms(1) by (simp add: buf nth_append)
  next
    case False
    with that have j: "16 \<le> j" by simp
    have "buf ! j = (take 4 (drop 12 reference) @ drop 16 bytecodeBuffer) ! (j - 12)"
      using j assms(1) by (simp add: buf nth_append)
    also have "\<dots> = drop 16 bytecodeBuffer ! (j - 16)"
    proof -
      have "length (take 4 (drop 12 reference)) = 4" using assms(3) by simp
      moreover have "\<not> j - 12 < 4" "j - 12 - 4 = j - 16" using j by arith+
      ultimately show ?thesis by (simp add: nth_append)
    qed
    also have "\<dots> = bytecodeBuffer ! j"
      using j that(1) by simp
    finally show ?thesis .
  qed
  from d len inside outside show ?thesis by blast
qed

theorem setFlagHashHeader_patch_witness:
  "setFlagHashHeader (replicate 12 0 @ [1, 2, 3, 4, 5]) None (replicate 20 9)
     = (Some (replicate 12 0 @ [1, 2, 3, 4, 5]), replicate 12 9 @ [1, 2, 3, 4] @ replicate 4 9)
   \<and> (replicate 12 9 @ [1, 2, 3, 4] @ replicate 4 9) ! 12
       = (replicate 12 0 @ [1, 2, 3, 4, 5 :: byte]) ! 12
   \<and> (replicate 12 9 @ [1, 2, 3, 4] @ replicate 4 9) ! 15
       = (replicate 12 0 @ [1, 2, 3, 4, 5 :: byte]) ! 15
   \<and> (replicate 12 9 @ [1, 2, 3, 4] @ replicate 4 9) ! 11 = (replicate 20 (9 :: byte)) ! 11
   \<and> (replicate 12 9 @ [1, 2, 3, 4] @ replicate 4 9) ! 16 = (replicate 20 (9 :: byte)) ! 16"
proof -
  have r: "setFlagHashHeader (replicate 12 0 @ [1, 2, 3, 4, 5]) None (replicate 20 9)
     = (Some (replicate 12 0 @ [1, 2, 3, 4, 5]), replicate 12 9 @ [1, 2, 3, 4] @ replicate 4 9)"
    by code_simp
  have l1: "16 \<le> length (replicate 20 (9 :: byte))" by simp
  have l2: "16 \<le> length (replicate 12 0 @ [1, 2, 3, 4, 5 :: byte])" by simp
  have ref: "replicate 12 0 @ [1, 2, 3, 4, 5 :: byte]
             = (case None of None \<Rightarrow> replicate 12 0 @ [1, 2, 3, 4, 5] | Some kept \<Rightarrow> kept)"
    by simp
  from setFlagHashHeader_patch [OF l1 ref l2 r] r
  show ?thesis by simp
qed

lemma concat_replicate_single: "concat (replicate n [x]) = replicate n x"
  by (induction n) simp_all

lemma dummyCode_of_fits:
  assumes "1 < L" and "L \<le> int maxLength"
  shows "dummyCode_of maxLength L = Inr ([0x22] @ replicate (nat (L - 2)) 0x200B @ [0x22])"
proof -
  have room: "nat (L - 2) + 2 \<le> maxLength"
    using assms by linarith
  have rep: "String_repeat maxLength [0x200B] (L - 2) = Inr (replicate (nat (L - 2)) 0x200B)"
    using assms by (simp add: String_repeat_def concat_replicate_single)
  have one: "String_concat maxLength [0x22] (replicate (nat (L - 2)) 0x200B)
             = Inr ([0x22] @ replicate (nat (L - 2)) 0x200B)"
    using room by (simp add: String_concat_def)
  have two: "String_concat maxLength (0x22 # replicate (nat (L - 2)) 0x200B) [0x22]
             = Inr (0x22 # replicate (nat (L - 2)) 0x200B @ [0x22])"
    using room by (simp add: String_concat_def)
  show ?thesis
    using assms(1) by (simp add: dummyCode_of_def rep one two)
qed

lemma dummyCode_of_too_long:
  assumes "1 < L" and "int maxLength < L"
  shows "dummyCode_of maxLength L = Inl (RangeError ''Invalid string length'')"
proof (cases "int maxLength < L - 2")
  case True
  then have "String_repeat maxLength [0x200B] (L - 2) = Inl (RangeError ''Invalid string length'')"
    using assms(1) by (simp add: String_repeat_def)
  then show ?thesis using assms(1) by (simp add: dummyCode_of_def)
next
  case False
  then have rep: "String_repeat maxLength [0x200B] (L - 2) = Inr (replicate (nat (L - 2)) 0x200B)"
    using assms(1) by (simp add: String_repeat_def concat_replicate_single)
  show ?thesis
  proof (cases "int maxLength < L - 1")
    case True
    then have "maxLength < nat (L - 2) + 1"
      using assms(1) by linarith
    then have "String_concat maxLength [0x22] (replicate (nat (L - 2)) 0x200B)
               = Inl (RangeError ''Invalid string length'')"
      by (simp add: String_concat_def)
    then show ?thesis using assms(1) by (simp add: dummyCode_of_def rep)
  next
    case False
    then have "nat (L - 2) + 1 \<le> maxLength"
      using assms(1) by linarith
    then have one: "String_concat maxLength [0x22] (replicate (nat (L - 2)) 0x200B)
               = Inr ([0x22] @ replicate (nat (L - 2)) 0x200B)"
      by (simp add: String_concat_def)
    have "maxLength < nat (L - 2) + 2"
      using assms by linarith
    then have "String_concat maxLength (0x22 # replicate (nat (L - 2)) 0x200B) [0x22]
          = Inl (RangeError ''Invalid string length'')"
      by (simp add: String_concat_def)
    then show ?thesis using assms(1) by (simp add: dummyCode_of_def rep one)
  qed
qed

text \<open>
  C7, as amended. For a bytecode buffer (of at least 12 bytes), the length \<open>L\<close> that
  the loader recovers is the little-endian integer of the four bytes at offset 8, read
  as a signed 32-bit value, as the bitwise operators of JavaScript give it; patching
  the flag hash first does not change it. When \<open>L > 1\<close> and \<open>L\<close> is not above the
  engine's maximal string length, the placeholder source has \<open>L\<close> code units: a quote,
  \<open>L - 2\<close> zero-width spaces and a quote. When \<open>L \<le> 1\<close> it has none. When \<open>L\<close> is above
  the maximal string length, no placeholder is built: the loader throws a
  \<open>RangeError\<close>.
\<close>

theorem placeholder_source_length:
  assumes "12 \<le> length bytecodeBuffer"
    and "L = buffer2Number (getSourceHashHeader bytecodeBuffer)"
  shows "L = int32_le (bytecodeBuffer ! 8) (bytecodeBuffer ! 9) (bytecodeBuffer ! 10)
               (bytecodeBuffer ! 11)
       \<and> (1 < L \<and> L \<le> int maxLength \<longrightarrow>
            dummyCode_of maxLength L = Inr ([0x22] @ replicate (nat (L - 2)) 0x200B @ [0x22])
            \<and> int (length ([0x22] @ replicate (nat (L - 2)) (0x200B :: 16 word) @ [0x22])) = L)
       \<and> (L \<le> 1 \<longrightarrow> dummyCode_of maxLength L = Inr [])
       \<and> (1 < L \<and> int maxLength < L \<longrightarrow>
            dummyCode_of maxLength L = Inl (RangeError ''Invalid string length'')
            \<and> load_jsc accepts maxLength cachedData dummyBytecode bytecodeBuffer
                = Inl (RangeError ''Invalid string length''))
       \<and> (load_jsc accepts maxLength cachedData dummyBytecode bytecodeBuffer = Inr r
            \<longrightarrow> dummyCode_of maxLength L = Inr (dummyCode r))"
proof -
  have le: "L = int32_le (bytecodeBuffer ! 8) (bytecodeBuffer ! 9) (bytecodeBuffer ! 10)
               (bytecodeBuffer ! 11)"
    using assms by (simp add: getSourceHashHeader_bytes buffer2Number_bytes)
  have read: "buffer2Number (getSourceHashHeader
                (snd (setFlagHashHeader cachedData dummyBytecode bytecodeBuffer))) = L"
    by (simp add: patch_keeps_source_hash assms(2))
  have load: "load_jsc accepts maxLength cachedData dummyBytecode bytecodeBuffer =
     (case dummyCode_of maxLength L of
        Inl e \<Rightarrow> Inl e
      | Inr src \<Rightarrow>
          if \<not> accepts src (snd (setFlagHashHeader cachedData dummyBytecode bytecodeBuffer))
          then Inl CachedDataRejected
          else Inr \<lparr>loader_dummyBytecode =
                      fst (setFlagHashHeader cachedData dummyBytecode bytecodeBuffer),
                    patched = snd (setFlagHashHeader cachedData dummyBytecode bytecodeBuffer),
                    dummyCode = src\<rparr>)"
    using read by (simp add: load_jsc_def Let_def case_prod_beta)
  have fits: "dummyCode_of maxLength L = Inr ([0x22] @ replicate (nat (L - 2)) 0x200B @ [0x22])
      \<and> int (length ([0x22] @ replicate (nat (L - 2)) (0x200B :: 16 word) @ [0x22])) = L"
    if "1 < L \<and> L \<le> int maxLength"
    using that by (simp add: dummyCode_of_fits)
  have none: "dummyCode_of maxLength L = Inr []" if "L \<le> 1"
    using that by (simp add: dummyCode_of_def)
  have long: "dummyCode_of maxLength L = Inl (RangeError ''Invalid string length'')
      \<and> load_jsc accepts maxLength cachedData dummyBytecode bytecodeBuffer
          = Inl (RangeError ''Invalid string length'')"
    if "1 < L \<and> int maxLength < L"
    using that by (simp add: load dummyCode_of_too_long)
  have loaded: "dummyCode_of maxLength L = Inr (dummyCode r)"
    if "load_jsc accepts maxLength cachedData dummyBytecode bytecodeBuffer = Inr r"
    using that unfolding load by (auto split: sum.splits if_splits)
  from le fits none long loaded show ?thesis by blast
qed

theorem placeholder_source_length_witness:
  "buffer2Number (getSourceHashHeader (replicate 8 0 @ [5, 0, 0, 0] @ replicate 4 0)) = 5
   \<and> 5 = int32_le 5 0 0 0
   \<and> dummyCode_of 1073741799 5 = Inr [0x22, 0x200B, 0x200B, 0x200B, 0x22]
   \<and> load_jsc accepts_all 1073741799 [] (Some (replicate 16 7))
        (replicate 8 0 @ [5, 0, 0, 0] @ replicate 4 0)
     = Inr \<lparr>loader_dummyBytecode = Some (replicate 16 7),
            patched = replicate 8 0 @ [5, 0, 0, 0] @ replicate 4 7,
            dummyCode = [0x22, 0x200B, 0x200B, 0x200B, 0x22]\<rparr>"
proof -
  let ?b = "replicate 8 0 @ [5, 0, 0, 0] @ replicate 4 (0 :: byte)"
  have len: "12 \<le> length ?b" by simp
  have L: "5 = buffer2Number (getSourceHashHeader ?b)"
    by (simp add: getSourceHashHeader_def Buffer_slice_def SOURCE_HASH_OFFSET_def
        buffer2Number_def Buffer_at_def)
  have patch: "setFlagHashHeader [] (Some (replicate 16 7)) ?b
               = (Some (replicate 16 7), replicate 8 0 @ [5, 0, 0, 0] @ replicate 4 7)"
    by code_simp
  have dc: "[0x22] @ replicate (nat (5 - 2)) 0x200B @ [0x22]
            = [0x22, 0x200B, 0x200B, 0x200B, 0x22 :: 16 word]"
    by code_simp
  have le: "(5 :: int) = int32_le 5 0 0 0"
    by (simp add: int32_le_def)
  have fits: "(1 :: int) < 5 \<and> (5 :: int) \<le> int 1073741799" by simp
  from placeholder_source_length [OF len L, of 1073741799 accepts_all "[]" "Some (replicate 16 7)"]
    fits
  have src: "dummyCode_of 1073741799 5 = Inr ([0x22] @ replicate (nat (5 - 2)) 0x200B @ [0x22])"
    by blast
  have read: "buffer2Number (getSourceHashHeader
                (snd (setFlagHashHeader [] (Some (replicate 16 7)) ?b))) = 5"
    by (simp only: patch_keeps_source_hash L [symmetric])
  have run: "load_jsc accepts_all 1073741799 [] (Some (replicate 16 7)) ?b
    = Inr \<lparr>loader_dummyBytecode = Some (replicate 16 7),
           patched = replicate 8 0 @ [5, 0, 0, 0] @ replicate 4 7,
           dummyCode = [0x22, 0x200B, 0x200B, 0x200B, 0x22]\<rparr>"
    using read
    by (simp only: load_jsc_def Let_def case_prod_beta src dc sum.case accepts_all_def
        patch fst_conv snd_conv not_True_eq_False if_False)
  from L src dc le run show ?thesis by (simp only: simp_thms)
qed

text \<open>
  The claim as first stated fails on a buffer whose header holds the length \<open>2^30\<close>
  (bytes \<open>00 00 00 40\<close>), above every maximal string length of V8: the loader throws
  before the script is built.
\<close>

theorem placeholder_source_length_counterexample:
  "buffer2Number (getSourceHashHeader (replicate 8 0 @ [0, 0, 0, 0x40] @ replicate 4 0))
     = 1073741824
   \<and> load_jsc accepts_all 1073741799 [] (Some (replicate 16 7))
        (replicate 8 0 @ [0, 0, 0, 0x40] @ replicate 4 0)
     = Inl (RangeError ''Invalid string length'')"
proof -
  let ?b = "replicate 8 0 @ [0, 0, 0, 0x40] @ replicate 4 (0 :: byte)"
  have len: "12 \<le> length ?b" by simp
  have "buffer2Number (getSourceHashHeader ?b) = int32_le (?b ! 8) (?b ! 9) (?b ! 10) (?b ! 11)"
    using len by (simp only: getSourceHashHeader_bytes buffer2Number_bytes)
  also have "\<dots> = 1073741824"
    by (simp add: int32_le_def nth_append)
  finally have L: "buffer2Number (getSourceHashHeader ?b) = 1073741824" .
  have read: "buffer2Number (getSourceHashHeader
                (snd (setFlagHashHeader [] (Some (replicate 16 7)) ?b))) = 1073741824"
    by (simp only: patch_keeps_source_hash L)
  have "dummyCode_of 1073741799 1073741824 = Inl (RangeError ''Invalid string length'')"
    by (rule dummyCode_of_too_long) simp_all
  with read have "load_jsc accepts_all 1073741799 [] (Some (replicate 16 7)) ?b
                  = Inl (RangeError ''Invalid string length'')"
    by (simp only: load_jsc_def Let_def case_prod_beta sum.case)
  with L show ?thesis by (simp only: simp_thms)
qed

section \<open>Reference rewriting\<close>

declare match_all.simps [simp del]
declare exec_loop.simps [simp del]

lemma RegExp_exec_SomeD:
  "RegExp_exec re s i = Some (k, n) \<Longrightarrow> i \<le> k \<and> k + n \<le> length s"
  by (auto simp: RegExp_exec_def split: if_splits option.splits)

lemma match_all_None: "RegExp_exec re s i = None \<Longrightarrow> match_all re s i = []"
  by (subst match_all.simps) simp

lemma match_all_Some:
  "RegExp_exec re s i = Some (k, n) \<Longrightarrow>
   match_all re s i = (k, n) # match_all re s (if n = 0 then k + 1 else k + n)"
  by (subst match_all.simps) simp

lemma spans_from_ge: "spans_from pos ms \<Longrightarrow> m \<in> set ms \<Longrightarrow> pos \<le> fst m \<and> 0 < snd m"
proof (induction ms arbitrary: pos)
  case Nil
  then show ?case by simp
next
  case (Cons a ms)
  show ?case
  proof (cases "m = a")
    case True
    with Cons.prems show ?thesis by simp
  next
    case False
    with Cons.prems have "m \<in> set ms" "spans_from (fst a + snd a) ms" "pos \<le> fst a"
      by simp_all
    with Cons.IH [of "fst a + snd a"] show ?thesis by simp
  qed
qed

lemma match_all_spans:
  "\<forall>m \<in> set (match_all re s i). snd m \<noteq> 0 \<Longrightarrow>
   spans_from i (match_all re s i) \<and> (\<forall>m \<in> set (match_all re s i). fst m + snd m \<le> length s)"
proof (induction re s i rule: match_all.induct)
  case (1 re s i)
  show ?case
  proof (cases "RegExp_exec re s i")
    case None
    then show ?thesis by (simp add: match_all_None)
  next
    case (Some m)
    obtain k n where m: "m = (k, n)" by (cases m)
    have unfold: "match_all re s i = (k, n) # match_all re s (if n = 0 then k + 1 else k + n)"
      using Some m by (simp add: match_all_Some)
    with "1.prems" have n: "n \<noteq> 0" by simp
    from unfold n have unfold': "match_all re s i = (k, n) # match_all re s (k + n)" by simp
    have "spans_from (k + n) (match_all re s (k + n))
          \<and> (\<forall>m \<in> set (match_all re s (k + n)). fst m + snd m \<le> length s)"
      using "1.IH" [OF Some m [symmetric]] "1.prems" n unfold' by simp
    moreover have "i \<le> k" "k + n \<le> length s"
      using RegExp_exec_SomeD [of re s i k n] Some m by simp_all
    ultimately show ?thesis using n by (simp add: unfold')
  qed
qed

lemma overwrite_behind:
  assumes "\<forall>ed \<in> set (edits s). fst (snd ed) \<le> k" and "n \<noteq> 0" and "k + n \<le> length (original s)"
  shows "overwrite s k (k + n) content = Inr (s\<lparr>edits := edits s @ [(k, k + n, content)]\<rparr>)"
proof -
  have "\<not> list_ex (\<lambda>(a, b, c). k < b \<and> a < k + n) (edits s)"
    using assms(1) by (fastforce simp: list_ex_iff)
  with assms(2,3) show ?thesis by (simp add: overwrite_def)
qed

lemma exec_loop_edits:
  "\<forall>m \<in> set (match_all re code i). snd m \<noteq> 0 \<Longrightarrow> original s = code \<Longrightarrow>
   \<forall>ed \<in> set (edits s). fst (snd ed) \<le> i \<Longrightarrow>
   exec_loop re code i s = Inr (s\<lparr>edits := edits s @ map (edit_of code) (match_all re code i)\<rparr>)"
proof (induction re code i s rule: exec_loop.induct)
  case (1 re code i s)
  show ?case
  proof (cases "RegExp_exec re code i")
    case None
    then show ?thesis
      by (subst exec_loop.simps) (simp add: match_all_None)
  next
    case (Some m)
    obtain k n where m: "m = (k, n)" by (cases m)
    have unfold: "match_all re code i = (k, n) # match_all re code (if n = 0 then k + 1 else k + n)"
      using Some m by (simp add: match_all_Some)
    with "1.prems"(1) have n: "n \<noteq> 0" by simp
    from unfold n have unfold': "match_all re code i = (k, n) # match_all re code (k + n)" by simp
    have range: "i \<le> k" "k + n \<le> length code"
      using RegExp_exec_SomeD [of re code i k n] Some m by simp_all
    let ?content = "take n (drop k code) @ ''c''"
    let ?s = "s\<lparr>edits := edits s @ [(k, k + n, ?content)]\<rparr>"
    have ow: "overwrite s k (k + n) ?content = Inr ?s"
      using "1.prems"(2,3) range n by (intro overwrite_behind) auto
    have "exec_loop re code (k + n) ?s
          = Inr (?s\<lparr>edits := edits ?s @ map (edit_of code) (match_all re code (k + n))\<rparr>)"
    proof (rule "1.IH" [OF Some m [symmetric] ow])
      show "\<forall>m \<in> set (match_all re code (k + n)). snd m \<noteq> 0"
        using "1.prems"(1) unfold' by simp
      show "original ?s = code" using "1.prems"(2) by simp
      show "\<forall>ed \<in> set (edits ?s). fst (snd ed) \<le> k + n"
        using "1.prems"(3) range by fastforce
    qed
    moreover have "exec_loop re code i s = exec_loop re code (k + n) ?s"
      using Some m ow by (subst exec_loop.simps) simp
    ultimately show ?thesis
      by (simp add: unfold' edit_of_def)
  qed
qed

lemma exec_loop_empty_match:
  "\<exists>m \<in> set (match_all re code i). snd m = 0 \<Longrightarrow> original s = code \<Longrightarrow>
   \<forall>ed \<in> set (edits s). fst (snd ed) \<le> i \<Longrightarrow>
   exec_loop re code i s = Inl (MagicStringError ''Cannot overwrite a zero-length range'')"
proof (induction re code i s rule: exec_loop.induct)
  case (1 re code i s)
  show ?case
  proof (cases "RegExp_exec re code i")
    case None
    with "1.prems"(1) show ?thesis by (simp add: match_all_None)
  next
    case (Some m)
    obtain k n where m: "m = (k, n)" by (cases m)
    have unfold: "match_all re code i = (k, n) # match_all re code (if n = 0 then k + 1 else k + n)"
      using Some m by (simp add: match_all_Some)
    have range: "i \<le> k" "k + n \<le> length code"
      using RegExp_exec_SomeD [of re code i k n] Some m by simp_all
    show ?thesis
    proof (cases "n = 0")
      case True
      then have "overwrite s k (k + n) (take n (drop k code) @ ''c'')
                 = Inl (MagicStringError ''Cannot overwrite a zero-length range'')"
        using range "1.prems"(2) by (simp add: overwrite_def)
      then show ?thesis
        using Some m by (subst exec_loop.simps) simp
    next
      case False
      let ?content = "take n (drop k code) @ ''c''"
      let ?s = "s\<lparr>edits := edits s @ [(k, k + n, ?content)]\<rparr>"
      have ow: "overwrite s k (k + n) ?content = Inr ?s"
        using "1.prems"(2,3) range False by (intro overwrite_behind) auto
      have "exec_loop re code (k + n) ?s
            = Inl (MagicStringError ''Cannot overwrite a zero-length range'')"
      proof (rule "1.IH" [OF Some m [symmetric] ow])
        show "\<exists>m \<in> set (match_all re code (k + n)). snd m = 0"
          using "1.prems"(1) unfold False by simp
        show "original ?s = code" using "1.prems"(2) by simp
        show "\<forall>ed \<in> set (edits ?s). fst (snd ed) \<le> k + n"
          using "1.prems"(3) range by fastforce
      qed
      moreover have "exec_loop re code i s = exec_loop re code (k + n) ?s"
        using Some m ow by (subst exec_loop.simps) simp
      ultimately show ?thesis by simp
    qed
  qed
qed

lemma render_span:
  assumes "pos \<le> fst m"
  shows "render code pos (map (edit_of code) (m # ms))
         = take (fst m + snd m - pos) (drop pos code) @ ''c''
           @ render code (fst m + snd m) (map (edit_of code) ms)"
proof -
  have "drop (fst m) code = drop (fst m - pos) (drop pos code)"
    using assms by simp
  then have "take (fst m - pos) (drop pos code) @ take (snd m) (drop (fst m) code)
        = take (fst m - pos + snd m) (drop pos code)"
    by (simp only: take_add)
  moreover have "fst m - pos + snd m = fst m + snd m - pos"
    using assms by simp
  ultimately show ?thesis
    by (simp add: edit_of_def)
qed

lemma render_length:
  "spans_from pos ms \<Longrightarrow> \<forall>m \<in> set ms. fst m + snd m \<le> length code \<Longrightarrow> pos \<le> length code \<Longrightarrow>
   length (render code pos (map (edit_of code) ms)) = length code - pos + length ms"
proof (induction ms arbitrary: pos)
  case Nil
  then show ?case by simp
next
  case (Cons m ms)
  let ?e = "fst m + snd m"
  from Cons.prems have le: "pos \<le> fst m" "?e \<le> length code" and sp: "spans_from ?e ms"
    by simp_all
  have "length (render code ?e (map (edit_of code) ms)) = length code - ?e + length ms"
    using Cons.IH [OF sp] Cons.prems(2) le by simp
  moreover have "length (take (?e - pos) (drop pos code)) = ?e - pos"
    using le by simp
  ultimately show ?case
    using le by (simp add: render_span [OF le(1)] del: map_eq_conv list.map)
qed

lemma ended_before_none:
  "spans_from pos ms \<Longrightarrow> j < pos \<Longrightarrow> ended_before ms j = 0"
proof -
  assume sp: "spans_from pos ms" and j: "j < pos"
  have "\<not> fst m + snd m \<le> j" if "m \<in> set ms" for m
    using spans_from_ge [OF sp that] j by simp
  then show ?thesis by (simp add: ended_before_def)
qed

lemma render_nth:
  "spans_from pos ms \<Longrightarrow> \<forall>m \<in> set ms. fst m + snd m \<le> length code \<Longrightarrow>
   pos \<le> j \<Longrightarrow> j < length code \<Longrightarrow>
   render code pos (map (edit_of code) ms) ! (j - pos + ended_before ms j) = code ! j"
proof (induction ms arbitrary: pos)
  case Nil
  then show ?case by (simp add: ended_before_def)
next
  case (Cons m ms)
  let ?e = "fst m + snd m"
  let ?head = "take (?e - pos) (drop pos code)"
  let ?tail = "render code ?e (map (edit_of code) ms)"
  from Cons.prems have le: "pos \<le> fst m" "?e \<le> length code" "0 < snd m"
    and sp: "spans_from ?e ms"
    by simp_all
  have r: "render code pos (map (edit_of code) (m # ms)) = ?head @ ''c'' @ ?tail"
    by (rule render_span [OF le(1)])
  have hl: "length ?head = ?e - pos" using le by simp
  show ?case
  proof (cases "j < ?e")
    case True
    have "ended_before ms j = 0" using sp True by (rule ended_before_none)
    with True have eb: "ended_before (m # ms) j = 0" by (simp add: ended_before_def)
    have inside: "j - pos < ?e - pos"
      using True Cons.prems(3) by arith
    then have "(?head @ ''c'' @ ?tail) ! (j - pos) = ?head ! (j - pos)"
      using hl by (simp add: nth_append)
    also have "\<dots> = code ! j"
      using inside Cons.prems(3) le by simp
    finally show ?thesis by (simp only: r eb add_0_right)
  next
    case False
    then have ej: "?e \<le> j" by simp
    then have eb: "ended_before (m # ms) j = Suc (ended_before ms j)"
      by (simp add: ended_before_def)
    have idx: "j - pos + Suc (ended_before ms j) = length ?head + Suc (j - ?e + ended_before ms j)"
      using ej le hl by simp
    have "(?head @ ''c'' @ ?tail) ! (length ?head + Suc (j - ?e + ended_before ms j))
          = ?tail ! (j - ?e + ended_before ms j)"
      by (simp only: nth_append_length_plus) simp
    also have "\<dots> = code ! j"
      using Cons.IH [OF sp _ ej Cons.prems(4)] Cons.prems(2) by simp
    finally show ?thesis by (simp only: r eb idx)
  qed
qed

lemma render_appended:
  "spans_from pos ms \<Longrightarrow> \<forall>m \<in> set ms. fst m + snd m \<le> length code \<Longrightarrow> i < length ms \<Longrightarrow>
   render code pos (map (edit_of code) ms) ! (fst (ms ! i) + snd (ms ! i) - pos + i) = CHR ''c''"
proof (induction ms arbitrary: pos i)
  case Nil
  then show ?case by simp
next
  case (Cons m ms)
  let ?e = "fst m + snd m"
  let ?head = "take (?e - pos) (drop pos code)"
  let ?tail = "render code ?e (map (edit_of code) ms)"
  from Cons.prems have le: "pos \<le> fst m" "?e \<le> length code" "0 < snd m"
    and sp: "spans_from ?e ms"
    by simp_all
  have r: "render code pos (map (edit_of code) (m # ms)) = ?head @ ''c'' @ ?tail"
    by (rule render_span [OF le(1)])
  have hl: "length ?head = ?e - pos" using le by simp
  show ?case
  proof (cases i)
    case 0
    have "(?head @ CHR ''c'' # ?tail) ! length ?head = CHR ''c''"
      by (rule nth_append_length)
    then have "(?head @ ''c'' @ ?tail) ! (?e - pos) = CHR ''c''"
      by (simp only: hl append_Cons append_Nil)
    then show ?thesis unfolding 0 r by simp
  next
    case (Suc i')
    let ?e' = "fst (ms ! i') + snd (ms ! i')"
    from Cons.prems(3) Suc have i': "i' < length ms" by simp
    then have ge: "?e \<le> fst (ms ! i')"
      using spans_from_ge [OF sp, of "ms ! i'"] by simp
    have idx: "fst ((m # ms) ! i) + snd ((m # ms) ! i) - pos + i
               = length ?head + Suc (?e' - ?e + i')"
      using ge le hl Suc by simp
    have "(?head @ ''c'' @ ?tail) ! (length ?head + Suc (?e' - ?e + i')) = ?tail ! (?e' - ?e + i')"
      by (simp only: nth_append_length_plus) simp
    also have "\<dots> = CHR ''c''"
      using Cons.IH [OF sp _ i'] Cons.prems(2) by simp
    finally show ?thesis by (simp only: idx r)
  qed
qed

lemma spans_sorted: "spans_from pos ms \<Longrightarrow> sorted (map fst (map (edit_of code) ms))"
proof (induction ms arbitrary: pos)
  case Nil
  then show ?case by simp
next
  case (Cons m ms)
  then have sp: "spans_from (fst m + snd m) ms" by simp
  have "fst m \<le> fst m'" if "m' \<in> set ms" for m'
    using spans_from_ge [OF sp that] by simp
  with Cons.IH [OF sp] show ?case by (auto simp: edit_of_def)
qed

lemma rewrite_references_render:
  assumes "\<forall>m \<in> set (match_all re code 0). snd m \<noteq> 0"
  shows "rewrite_references re code = Inr (render code 0 (map (edit_of code) (match_all re code 0)))"
proof (cases "match_all re code 0")
  case Nil
  then show ?thesis by (simp add: rewrite_references_def String_match_def)
next
  case (Cons m ms)
  have "exec_loop re code 0 (MagicString_new code)
        = Inr \<lparr>original = code, edits = map (edit_of code) (match_all re code 0)\<rparr>"
    using exec_loop_edits [OF assms, of "MagicString_new code"]
    by (simp add: MagicString_new_def)
  moreover have "sort_key fst (map (edit_of code) (match_all re code 0))
                 = map (edit_of code) (match_all re code 0)"
    using match_all_spans [OF assms] by (intro sort_key_id_if_sorted spans_sorted) blast
  ultimately show ?thesis
    using Cons by (simp add: rewrite_references_def String_match_def toString_def)
qed

lemma rewrite_references_empty_match:
  assumes "\<exists>m \<in> set (match_all re code 0). snd m = 0"
  shows "rewrite_references re code = Inl (MagicStringError ''Cannot overwrite a zero-length range'')"
proof -
  from assms obtain m ms where "match_all re code 0 = m # ms"
    by (cases "match_all re code 0") auto
  moreover have "exec_loop re code 0 (MagicString_new code)
        = Inl (MagicStringError ''Cannot overwrite a zero-length range'')"
    using exec_loop_empty_match [OF assms, of "MagicString_new code"]
    by (simp add: MagicString_new_def)
  ultimately show ?thesis
    by (simp add: rewrite_references_def String_match_def)
qed

text \<open>For chunk names without metacharacters other than the dot, every alternative
  consumes as many characters as the name has, so that no match is empty.\<close>

lemma search_from_length:
  "search_from names s k = Some (a, b) \<Longrightarrow> \<exists>n \<in> set names. b = length n"
proof (induction s arbitrary: k)
  case Nil
  then show ?case
    by (auto simp: find_Some_iff split: option.splits)
next
  case (Cons c cs)
  show ?case
  proof (cases "find (\<lambda>n. matches_here n (c # cs)) names")
    case None
    with Cons.prems have "search_from names cs (Suc k) = Some (a, b)" by simp
    then show ?thesis by (rule Cons.IH)
  next
    case (Some n)
    then have "n \<in> set names" by (auto simp: find_Some_iff)
    with Some Cons.prems show ?thesis by auto
  qed
qed

lemma match_all_from_exec:
  "m \<in> set (match_all re s i) \<Longrightarrow> \<exists>j. RegExp_exec re s j = Some m"
proof (induction re s i rule: match_all.induct)
  case (1 re s i)
  show ?case
  proof (cases "RegExp_exec re s i")
    case None
    with "1.prems" show ?thesis by (simp add: match_all_None)
  next
    case (Some found)
    obtain k n where found: "found = (k, n)" by (cases found)
    have "match_all re s i = (k, n) # match_all re s (if n = 0 then k + 1 else k + n)"
      using Some found by (simp add: match_all_Some)
    with "1.prems" have "m = (k, n) \<or> m \<in> set (match_all re s (if n = 0 then k + 1 else k + n))"
      by simp
    then show ?thesis
    proof
      assume "m = (k, n)"
      with Some found show ?thesis by blast
    next
      assume "m \<in> set (match_all re s (if n = 0 then k + 1 else k + n))"
      then show ?thesis by (rule "1.IH" [OF Some found [symmetric]])
    qed
  qed
qed

lemma names_matcher_nonempty:
  assumes "\<forall>n \<in> set names. n \<noteq> []"
  shows "\<forall>m \<in> set (match_all (names_matcher names) code 0). snd m \<noteq> 0"
proof
  fix m assume "m \<in> set (match_all (names_matcher names) code 0)"
  then obtain j where "RegExp_exec (names_matcher names) code j = Some m"
    using match_all_from_exec by blast
  then have "names_matcher names code j = Some m"
    by (auto simp: RegExp_exec_def split: if_splits option.splits)
  then have "search_from names (drop j code) j = Some (fst m, snd m)"
    by (simp add: names_matcher_def)
  then obtain n where "n \<in> set names" "snd m = length n"
    using search_from_length by blast
  with assms show "snd m \<noteq> 0" by auto
qed

text \<open>
  C1, as amended. Let the combined pattern be a regular expression (the engine's
  answers for it are the parameter \<open>bytecodeRE\<close>), and let the matches of the pattern in the chunk text be the ones that
  \<open>match\<close> finds, none of them empty (a pattern built from file names matches at
  least one character, see \<open>names_matcher_nonempty\<close>; on an empty match magic-string
  throws, see \<open>rewrite_references_empty_match\<close>). Then the rewriting step returns a
  text whose length is the length of the input plus the number of matches; every
  character of the input is in the output, moved to the right by the number of
  matches that end at or before it; and behind each matched span stands one
  character \<open>c\<close>.
\<close>

theorem rewrite_references_additive:
  assumes "\<forall>m \<in> set (match_all bytecodeRE code 0). snd m \<noteq> 0"
  shows "\<exists>out. rewrite_references bytecodeRE code = Inr out
     \<and> length out = length code + length (match_all bytecodeRE code 0)
     \<and> (\<forall>j < length code. out ! (j + ended_before (match_all bytecodeRE code 0) j) = code ! j)
     \<and> (\<forall>i < length (match_all bytecodeRE code 0).
           out ! (fst (match_all bytecodeRE code 0 ! i) + snd (match_all bytecodeRE code 0 ! i) + i)
           = CHR ''c'')"
proof -
  let ?ms = "match_all bytecodeRE code 0"
  let ?out = "render code 0 (map (edit_of code) ?ms)"
  have sp: "spans_from 0 ?ms" and bd: "\<forall>m \<in> set ?ms. fst m + snd m \<le> length code"
    using match_all_spans [OF assms] by simp_all
  have "rewrite_references bytecodeRE code = Inr ?out"
    using assms by (rule rewrite_references_render)
  moreover have "length ?out = length code + length ?ms"
    using render_length [OF sp bd] by simp
  moreover have "\<forall>j < length code. ?out ! (j + ended_before ?ms j) = code ! j"
    using render_nth [OF sp bd, of _] by simp
  moreover have "\<forall>i < length ?ms. ?out ! (fst (?ms ! i) + snd (?ms ! i) + i) = CHR ''c''"
    using render_appended [OF sp bd] by simp
  ultimately show ?thesis by blast
qed

theorem rewrite_references_additive_witness:
  "match_all (names_matcher [''index.js'']) ''a index.js b indexXjs'' 0 = [(2, 8), (13, 8)]
   \<and> rewrite_references (names_matcher [''index.js'']) ''a index.js b indexXjs''
     = Inr ''a index.jsc b indexXjsc''
   \<and> length ''a index.jsc b indexXjsc'' = length ''a index.js b indexXjs'' + 2
   \<and> ''a index.jsc b indexXjsc'' ! (12 + 1) = ''a index.js b indexXjs'' ! 12"
proof -
  let ?re = "names_matcher [''index.js'']"
  have ms: "match_all ?re ''a index.js b indexXjs'' 0 = [(2, 8), (13, 8)]"
    by code_simp
  have nonempty: "\<forall>m \<in> set (match_all ?re ''a index.js b indexXjs'' 0). snd m \<noteq> 0"
    by (simp add: ms)
  have out: "rewrite_references ?re ''a index.js b indexXjs'' = Inr ''a index.jsc b indexXjsc''"
    by code_simp
  from rewrite_references_additive [OF nonempty] ms out
  show ?thesis by simp
qed

text \<open>
  The claim as first stated fails for the set that holds the chunk file name \<open>x*\<close>
  and the chunk text \<open>ab\<close>: the pattern has three matches, all empty, and the
  rewriting step throws on the first one and returns no text.
\<close>

theorem rewrite_references_additive_counterexample:
  "bytecodeRE_source [''x*''] = ''(x*)''
   \<and> match_all x_star_matcher ''ab'' 0 = [(0, 0), (1, 0), (2, 0)]
   \<and> rewrite_references x_star_matcher ''ab''
     = Inl (MagicStringError ''Cannot overwrite a zero-length range'')"
proof -
  have src: "bytecodeRE_source [''x*''] = ''(x*)''"
    by (simp add: bytecodeRE_source_def)
  have ms: "match_all x_star_matcher ''ab'' 0 = [(0, 0), (1, 0), (2, 0)]"
    by code_simp
  have out: "rewrite_references x_star_matcher ''ab''
             = Inl (MagicStringError ''Cannot overwrite a zero-length range'')"
    by code_simp
  from src ms out show ?thesis by (simp only: simp_thms)
qed

section \<open>Dependency propagation\<close>

declare propagate_loop.simps [simp del]

lemma set_set_add_all: "set (set_add_all ids xs) = set ids \<union> set xs"
  unfolding set_add_all_def
  by (induction xs arbitrary: ids) (auto simp: set_add_def)

lemma distinct_set_add_all: "distinct ids \<Longrightarrow> distinct (set_add_all ids xs)"
  unfolding set_add_all_def
  by (induction xs arbitrary: ids) (auto simp: set_add_def)

lemma set_add_all_extends: "\<exists>zs. set_add_all ids xs = ids @ zs"
  unfolding set_add_all_def
proof (induction xs arbitrary: ids)
  case Nil
  then show ?case by simp
next
  case (Cons x xs)
  obtain zs where zs: "foldl set_add (set_add ids x) xs = set_add ids x @ zs"
    using Cons.IH by blast
  have "set_add ids x = ids \<or> set_add ids x = ids @ [x]"
    by (simp add: set_add_def)
  then show ?case
  proof
    assume "set_add ids x = ids"
    with zs show ?thesis by simp
  next
    assume "set_add ids x = ids @ [x]"
    with zs show ?thesis by simp
  qed
qed

lemma new_Set_set: "set (new_Set xs) = set xs"
  by (simp add: new_Set_def set_set_add_all)

lemma new_Set_distinct: "distinct (new_Set xs)"
  by (simp add: new_Set_def distinct_set_add_all)

lemma expansion_in_graph: "set (expansion g m) \<subseteq> graph_importers g"
proof (cases "getModuleInfo g m")
  case None
  then show ?thesis by (simp add: expansion_def)
next
  case (Some mi)
  then have "(m, mi) \<in> set g"
    by (simp add: getModuleInfo_def map_of_SomeD)
  then have "set (importers mi) \<union> set (dynamicImporters mi) \<subseteq> graph_importers g"
    by (auto simp: graph_importers_def)
  with Some show ?thesis by (auto simp: expansion_def)
qed

text \<open>One iteration either stops, or goes on with the identifiers of the expansion of
  the current module added behind the ones already there.\<close>

lemma propagate_loop_step:
  assumes "i < length ids"
  shows "propagate_loop g bc ids i =
     (if ids ! i \<in> set bc
      then \<lparr>hasBytecodeMoudle = True, idsToHandle = ids, visited = Suc i\<rparr>
      else propagate_loop g bc (set_add_all ids (expansion g (ids ! i))) (Suc i))"
proof -
  have two: "set_add_all (set_add_all xs ys) zs = set_add_all xs (ys @ zs)" for xs ys zs
    by (simp add: set_add_all_def)
  have none: "set_add_all xs [] = xs" for xs
    by (simp add: set_add_all_def)
  show ?thesis
    using assms
    by (subst propagate_loop.simps)
       (simp add: expansion_def two none Let_def split: option.splits)
qed

lemma propagate_loop_done:
  "\<not> i < length ids \<Longrightarrow>
   propagate_loop g bc ids i = \<lparr>hasBytecodeMoudle = False, idsToHandle = ids, visited = i\<rparr>"
  by (subst propagate_loop.simps) simp

lemma propagate_loop_induct [consumes 0, case_names exhausted found expand]:
  assumes "\<And>ids i. \<not> i < length ids \<Longrightarrow> P ids i"
    and "\<And>ids i. i < length ids \<Longrightarrow> ids ! i \<in> set bc \<Longrightarrow> P ids i"
    and "\<And>ids i. i < length ids \<Longrightarrow> ids ! i \<notin> set bc \<Longrightarrow>
           P (set_add_all ids (expansion g (ids ! i))) (Suc i) \<Longrightarrow> P ids i"
  shows "P ids i"
proof -
  have "g' = g \<Longrightarrow> bc' = bc \<Longrightarrow> P ids i" for g' bc'
  proof (induction g' bc' ids i rule: propagate_loop.induct)
    case (1 g' bc' ids i)
    note eq = "1.prems"
    show ?case
    proof (cases "i < length ids")
      case False
      then show ?thesis by (rule assms(1))
    next
      case inside: True
      show ?thesis
      proof (cases "ids ! i \<in> set bc")
        case True
        with inside show ?thesis by (rule assms(2))
      next
        case False
        then have out: "ids ! i \<notin> set bc'" by (simp add: eq)
        have none: "set_add_all xs [] = xs" for xs
          by (simp add: set_add_all_def)
        have two: "set_add_all (set_add_all xs ys) zs = set_add_all xs (ys @ zs)" for xs ys zs
          by (simp add: set_add_all_def)
        have "P (set_add_all ids (expansion g (ids ! i))) (Suc i)"
        proof (cases "getModuleInfo g' (ids ! i)")
          case None
          from "1.IH"(1) [OF inside refl out None eq] None show ?thesis
            by (simp add: expansion_def none eq)
        next
          case (Some mi)
          show ?thesis
          proof (cases "isExternal mi")
            case True
            then have "\<not> \<not> isExternal mi" by simp
            from "1.IH"(3) [OF inside refl out Some this eq] Some True show ?thesis
              by (simp add: expansion_def none eq)
          next
            case internal: False
            from "1.IH"(2) [OF inside refl out Some internal eq] Some internal
            show ?thesis
              by (simp add: expansion_def two eq)
          qed
        qed
        with inside False show ?thesis by (rule assms(3))
      qed
    qed
  qed
  then show ?thesis by simp
qed

lemma propagate_loop_bounds:
  assumes "graph_importers g \<subseteq> U"
  shows "distinct ids \<Longrightarrow> set ids \<subseteq> U \<Longrightarrow> i \<le> length ids \<Longrightarrow>
         distinct (idsToHandle (propagate_loop g bc ids i))
         \<and> set (idsToHandle (propagate_loop g bc ids i)) \<subseteq> U
         \<and> visited (propagate_loop g bc ids i) \<le> length (idsToHandle (propagate_loop g bc ids i))"
proof (induction ids i rule: propagate_loop_induct [where g = g and bc = bc])
  case (exhausted ids i)
  then show ?case by (simp add: propagate_loop_done)
next
  case (found ids i)
  then show ?case by (simp add: propagate_loop_step)
next
  case (expand ids i)
  let ?ids = "set_add_all ids (expansion g (ids ! i))"
  obtain zs where zs: "?ids = ids @ zs"
    using set_add_all_extends by blast
  have "distinct ?ids" using expand.prems(1) by (rule distinct_set_add_all)
  moreover have "set ?ids \<subseteq> U"
    using expand.prems(2) expansion_in_graph [of g "ids ! i"] assms
    by (auto simp: set_set_add_all)
  moreover have "Suc i \<le> length ?ids"
    using expand.hyps(1) zs by simp
  ultimately show ?case
    using expand.IH expand.hyps by (simp add: propagate_loop_step)
qed

text \<open>
  C10. For every finite module graph the loop ends: \<open>propagate_loop\<close> is a total
  function, by the termination proof given with its definition, whose measure is the
  number of identifiers not yet visited.
  The set it iterates over holds each identifier once, all of them seeds or importers
  recorded in the graph, so the number of identifiers visited is at most the number of
  seeds and importers of the graph.
\<close>

theorem propagation_terminates:
  "finite (set (chunk_imports chunk) \<union> set (chunk_dynamicImports chunk) \<union> graph_importers g)
   \<and> distinct (idsToHandle (propagate g bc chunk))
   \<and> set (idsToHandle (propagate g bc chunk))
       \<subseteq> set (chunk_imports chunk) \<union> set (chunk_dynamicImports chunk) \<union> graph_importers g
   \<and> visited (propagate g bc chunk) \<le> length (idsToHandle (propagate g bc chunk))
   \<and> length (idsToHandle (propagate g bc chunk))
       \<le> card (set (chunk_imports chunk) \<union> set (chunk_dynamicImports chunk) \<union> graph_importers g)"
proof -
  let ?U = "set (chunk_imports chunk) \<union> set (chunk_dynamicImports chunk) \<union> graph_importers g"
  let ?r = "propagate g bc chunk"
  have fin: "finite ?U"
    by (auto simp: graph_importers_def)
  have b: "distinct (idsToHandle ?r) \<and> set (idsToHandle ?r) \<subseteq> ?U
           \<and> visited ?r \<le> length (idsToHandle ?r)"
    unfolding propagate_def
    by (rule propagate_loop_bounds) (auto simp: new_Set_set new_Set_distinct)
  then have "length (idsToHandle ?r) = card (set (idsToHandle ?r))"
    by (simp add: distinct_card)
  also have "\<dots> \<le> card ?U"
    using b fin by (intro card_mono) simp_all
  finally show ?thesis using fin b by simp
qed

lemma frontier_mono: "S \<subseteq> T \<Longrightarrow> x \<in> frontier g S \<Longrightarrow> x \<in> frontier g T"
proof -
  assume sub: "S \<subseteq> T" and "x \<in> frontier g S"
  from this(2) show ?thesis
  proof (induction rule: frontier.induct)
    case (seed x)
    with sub show ?case by (auto intro: frontier.seed)
  next
    case (importer m x)
    then show ?case by (auto intro: frontier.importer)
  qed
qed

lemma frontier_absorb: "T \<subseteq> frontier g S \<Longrightarrow> x \<in> frontier g T \<Longrightarrow> x \<in> frontier g S"
proof -
  assume sub: "T \<subseteq> frontier g S" and "x \<in> frontier g T"
  from this(2) show ?thesis
  proof (induction rule: frontier.induct)
    case (seed x)
    with sub show ?case by auto
  next
    case (importer m x)
    then show ?case by (auto intro: frontier.importer)
  qed
qed

lemma frontier_expand:
  assumes "m \<in> S"
  shows "frontier g (S \<union> set (expansion g m)) = frontier g S"
proof
  have sub: "S \<union> set (expansion g m) \<subseteq> frontier g S"
    using assms by (auto intro: frontier.seed frontier.importer)
  show "frontier g (S \<union> set (expansion g m)) \<subseteq> frontier g S"
  proof
    fix x assume "x \<in> frontier g (S \<union> set (expansion g m))"
    with sub show "x \<in> frontier g S" by (rule frontier_absorb)
  qed
  show "frontier g S \<subseteq> frontier g (S \<union> set (expansion g m))"
  proof
    fix x assume "x \<in> frontier g S"
    then show "x \<in> frontier g (S \<union> set (expansion g m))"
      by (rule frontier_mono [rotated]) simp
  qed
qed

lemma frontier_closed:
  assumes "\<forall>m \<in> S. set (expansion g m) \<subseteq> S" and "x \<in> frontier g S"
  shows "x \<in> S"
  using assms(2)
proof (induction rule: frontier.induct)
  case (seed x)
  then show ?case .
next
  case (importer m x)
  with assms(1) show ?case by auto
qed

lemma propagate_loop_frontier:
  "i \<le> length ids \<Longrightarrow>
   \<forall>j < i. ids ! j \<notin> set bc \<and> set (expansion g (ids ! j)) \<subseteq> set ids \<Longrightarrow>
   hasBytecodeMoudle (propagate_loop g bc ids i) \<longleftrightarrow> (\<exists>c \<in> set bc. c \<in> frontier g (set ids))"
proof (induction ids i rule: propagate_loop_induct [where g = g and bc = bc])
  case (exhausted ids i)
  have all: "\<forall>m \<in> set ids. m \<notin> set bc \<and> set (expansion g m) \<subseteq> set ids"
  proof
    fix m assume "m \<in> set ids"
    then obtain j where "j < length ids" "ids ! j = m"
      by (auto simp: in_set_conv_nth)
    moreover from this exhausted.hyps have "j < i" by simp
    ultimately show "m \<notin> set bc \<and> set (expansion g m) \<subseteq> set ids"
      using exhausted.prems(2) by blast
  qed
  then have "c \<in> frontier g (set ids) \<Longrightarrow> c \<notin> set bc" for c
    using frontier_closed [of "set ids" g c] by auto
  with exhausted show ?case by (auto simp: propagate_loop_done)
next
  case (found ids i)
  then have "ids ! i \<in> frontier g (set ids)"
    by (auto intro: frontier.seed)
  with found show ?case by (auto simp: propagate_loop_step)
next
  case (expand ids i)
  let ?ids = "set_add_all ids (expansion g (ids ! i))"
  obtain zs where zs: "?ids = ids @ zs"
    using set_add_all_extends by blast
  have same: "?ids ! j = ids ! j" if "j \<le> i" for j
    using that expand.hyps(1) by (simp add: zs nth_append)
  have set: "set ?ids = set ids \<union> set (expansion g (ids ! i))"
    by (rule set_set_add_all)
  have "Suc i \<le> length ?ids"
    using expand.hyps(1) zs by simp
  moreover have "\<forall>j < Suc i. ?ids ! j \<notin> set bc \<and> set (expansion g (?ids ! j)) \<subseteq> set ?ids"
  proof (intro allI impI)
    fix j assume j: "j < Suc i"
    show "?ids ! j \<notin> set bc \<and> set (expansion g (?ids ! j)) \<subseteq> set ?ids"
    proof (cases "j = i")
      case True
      with expand.hyps(2) same [of i] set show ?thesis by auto
    next
      case False
      with j have "j < i" by simp
      with expand.prems(2) same [of j] set show ?thesis by auto
    qed
  qed
  ultimately have "hasBytecodeMoudle (propagate_loop g bc ?ids (Suc i))
                   \<longleftrightarrow> (\<exists>c \<in> set bc. c \<in> frontier g (set ?ids))"
    by (rule expand.IH)
  moreover have "frontier g (set ?ids) = frontier g (set ids)"
    unfolding set using expand.hyps(1) by (intro frontier_expand) simp
  ultimately show ?case
    using expand.hyps by (simp add: propagate_loop_step)
qed

lemma propagate_frontier:
  "hasBytecodeMoudle (propagate g bc chunk) \<longleftrightarrow>
     (\<exists>c \<in> set bc. c \<in> frontier g (set (chunk_imports chunk) \<union> set (chunk_dynamicImports chunk)))"
  using propagate_loop_frontier [of 0 "new_Set (chunk_imports chunk @ chunk_dynamicImports chunk)" bc g]
  by (simp add: propagate_def new_Set_set)

lemma String_replace_prefix: "String_replace pat rep (pat @ rest) = rep @ rest"
proof (cases "pat @ rest")
  case Nil
  then show ?thesis by simp
next
  case (Cons c cs)
  have "prefix pat (c # cs)"
    unfolding Cons [symmetric] by simp
  then have "String_replace pat rep (c # cs) = rep @ drop (length pat) (c # cs)"
    by simp
  then show ?thesis
    by (simp add: Cons [symmetric])
qed

text \<open>
  C2, as amended. For an entry chunk that is not selected for compilation, the entry
  needs the loader exactly when the frontier holds the file name of a compiled chunk,
  where the frontier is the least set that holds the entry's static and dynamic
  imports and, with every known module that is not external, its importers and
  dynamic importers. If so, the text written for the entry is its
  (reference-rewritten) code with the first occurrence of \<open>"use strict";\<close> replaced by
  the prologue that requires the loader, which for a code that starts with
  \<open>"use strict";\<close> puts that prologue in front of the rest; if not, the text written
  is the code unchanged. So an entry whose frontier holds no compiled chunk is
  written as it is; nothing is said of its transitive dependencies.
\<close>

theorem dependency_propagation:
  assumes "chunk_type chunk = chunk_kind" and "isEntry chunk"
    and "name \<notin> set (bytecodeChunks p)"
    and "rewrite_references bytecodeRE (chunk_code chunk) = Inr code"
    and "needs = (\<exists>c \<in> set (bytecodeChunks p).
           c \<in> frontier (module_graph e)
                 (set (chunk_imports chunk) \<union> set (chunk_dynamicImports chunk)))"
  shows \<open>hasBytecodeMoudle (propagate (module_graph e) (bytecodeChunks p) chunk) = needs
       \<and> ops (process_chunk e p bytecodeRE outDir name chunk) =
           [WriteFile (path_resolve e outDir name)
              (Text (if needs then String_replace ''"use strict";'' requireBytecodeLoaderStr code
                     else code))]
       \<and> (needs \<and> code = ''"use strict";'' @ rest \<longrightarrow>
            ops (process_chunk e p bytecodeRE outDir name chunk) =
              [WriteFile (path_resolve e outDir name)
                 (Text (''"use strict";\<newline>require("./bytecode-loader.js");'' @ rest))])
       \<and> (\<not> needs \<longrightarrow>
            ops (process_chunk e p bytecodeRE outDir name chunk) =
              [WriteFile (path_resolve e outDir name) (Text code)])\<close>
proof -
  have n: "hasBytecodeMoudle (propagate (module_graph e) (bytecodeChunks p) chunk) = needs"
    by (simp add: propagate_frontier assms(5))
  have w: \<open>ops (process_chunk e p bytecodeRE outDir name chunk) =
           [WriteFile (path_resolve e outDir name)
              (Text (if needs then String_replace ''"use strict";'' requireBytecodeLoaderStr code
                     else code))]\<close>
    using assms(1-4) n by (simp add: process_chunk_def inject_loader_def Let_def)
  have r: \<open>String_replace ''"use strict";'' requireBytecodeLoaderStr (''"use strict";'' @ rest)
           = ''"use strict";\<newline>require("./bytecode-loader.js");'' @ rest\<close>
    unfolding requireBytecodeLoaderStr_def by (rule String_replace_prefix)
  from n w r show ?thesis by auto
qed

theorem dependency_propagation_witness:
  \<open>(\<exists>c \<in> set (bytecodeChunks example_plugin).
        c \<in> frontier (module_graph example_paths)
              (set (chunk_imports example_main) \<union> set (chunk_dynamicImports example_main)))
   \<and> ops (process_chunk example_paths example_plugin (names_matcher [''index.js'']) ''out''
            ''main.js'' example_main) =
       [WriteFile ''out/main.js''
          (Text ''"use strict";\<newline>require("./bytecode-loader.js");require("./index.jsc")'')]\<close>
proof -
  have kind: "chunk_type example_main = chunk_kind" and entry: "isEntry example_main"
    and other: "''main.js'' \<notin> set (bytecodeChunks example_plugin)"
    by (simp_all add: example_main_def example_plugin_def)
  have rw: \<open>rewrite_references (names_matcher [''index.js'']) (chunk_code example_main)
            = Inr ''"use strict";require("./index.jsc")''\<close>
    by code_simp
  have found: "hasBytecodeMoudle (propagate (module_graph example_paths)
                 (bytecodeChunks example_plugin) example_main)"
    by code_simp
  have put: \<open>String_replace ''"use strict";'' requireBytecodeLoaderStr
               ''"use strict";require("./index.jsc")''
             = ''"use strict";\<newline>require("./bytecode-loader.js");require("./index.jsc")''\<close>
    by code_simp
  have dir: "path_resolve example_paths ''out'' ''main.js'' = ''out/main.js''"
    by (simp add: example_paths_def)
  from dependency_propagation [OF kind entry other rw refl, where outDir = "''out''" and rest = "[]"]
    found put dir
  show ?thesis by simp
qed

lemma dependencies_closed:
  assumes "\<And>m x mi. m \<in> S \<Longrightarrow> getModuleInfo g x = Some mi \<Longrightarrow>
             m \<in> set (importers mi) \<union> set (dynamicImporters mi) \<Longrightarrow> x \<in> S"
    and "x \<in> dependencies g S"
  shows "x \<in> S"
  using assms(2)
proof (induction rule: dependencies.induct)
  case (direct x)
  then show ?case .
next
  case (imported m x mi)
  then show ?case using assms(1) by blast
qed

text \<open>
  The claim as first stated fails twice. The entry \<open>app.js\<close> imports only \<open>utils.js\<close>,
  which imports nothing, so that the compiled chunk \<open>index.js\<close> is not among its
  transitive dependencies; but \<open>index.js\<close> imports \<open>utils.js\<close> too, the frontier reaches
  it, and the code of \<open>app.js\<close> is not written as it was. The entry \<open>plain.js\<close> needs
  the loader in the same way, but its code has no \<open>"use strict";\<close> and is written
  without the prologue that requires the loader.
\<close>

theorem dependency_propagation_counterexample:
  \<open>''index.js'' \<notin> dependencies (module_graph example_shared)
                     (set (chunk_imports example_app) \<union> set (chunk_dynamicImports example_app))
   \<and> bytecodeChunks example_plugin = [''index.js'']
   \<and> chunk_code example_app = ''"use strict";f()''
   \<and> ops (process_chunk example_shared example_plugin (names_matcher [''index.js'']) ''out''
            ''app.js'' example_app) =
       [WriteFile ''out/app.js''
          (Text ''"use strict";\<newline>require("./bytecode-loader.js");f()'')]
   \<and> hasBytecodeMoudle (propagate (module_graph example_shared) (bytecodeChunks example_plugin)
                          example_plain)
   \<and> ops (process_chunk example_shared example_plugin (names_matcher [''index.js'']) ''out''
            ''plain.js'' example_plain) =
       [WriteFile ''out/plain.js'' (Text ''f()'')]\<close>
proof -
  have graph: "module_graph example_shared =
     [(''utils.js'', \<lparr>isExternal = False, importers = [''app.js'', ''index.js''],
                      dynamicImporters = []\<rparr>)]"
    by (simp add: example_shared_def)
  have seeds: "set (chunk_imports example_app) \<union> set (chunk_dynamicImports example_app)
               = {''utils.js''}"
    by (simp add: example_app_def)
  have "x \<in> {''utils.js''}"
    if "x \<in> dependencies (module_graph example_shared) {''utils.js''}" for x
  proof (rule dependencies_closed [OF _ that])
    fix m x mi
    assume "m \<in> {''utils.js''}" "getModuleInfo (module_graph example_shared) x = Some mi"
      "m \<in> set (importers mi) \<union> set (dynamicImporters mi)"
    then show "x \<in> {''utils.js''}"
      by (auto simp: graph getModuleInfo_def split: if_splits)
  qed
  then have far: "''index.js'' \<notin> dependencies (module_graph example_shared)
                     (set (chunk_imports example_app) \<union> set (chunk_dynamicImports example_app))"
    unfolding seeds by auto
  have bc: "bytecodeChunks example_plugin = [''index.js'']"
    by (simp add: example_plugin_def)
  have code: \<open>chunk_code example_app = ''"use strict";f()''\<close>
    by (simp add: example_app_def)
  have rw_app: \<open>rewrite_references (names_matcher [''index.js'']) (chunk_code example_app)
                = Inr ''"use strict";f()''\<close>
    by code_simp
  have rw_plain: "rewrite_references (names_matcher [''index.js'']) (chunk_code example_plain)
                  = Inr ''f()''"
    by code_simp
  have found_app: "hasBytecodeMoudle (propagate (module_graph example_shared)
                     (bytecodeChunks example_plugin) example_app)"
    by code_simp
  have found_plain: "hasBytecodeMoudle (propagate (module_graph example_shared)
                       (bytecodeChunks example_plugin) example_plain)"
    by code_simp
  have put_app: \<open>String_replace ''"use strict";'' requireBytecodeLoaderStr ''"use strict";f()''
                 = ''"use strict";\<newline>require("./bytecode-loader.js");f()''\<close>
    by code_simp
  have put_plain: \<open>String_replace ''"use strict";'' requireBytecodeLoaderStr ''f()'' = ''f()''\<close>
    by code_simp
  have dir: "path_resolve example_shared ''out'' ''app.js'' = ''out/app.js''"
    "path_resolve example_shared ''out'' ''plain.js'' = ''out/plain.js''"
    by (simp_all add: example_shared_def example_paths_def)
  have kind: "chunk_type example_app = chunk_kind" "isEntry example_app"
    "chunk_type example_plain = chunk_kind" "isEntry example_plain"
    by (simp_all add: example_app_def example_plain_def)
  have app: \<open>ops (process_chunk example_shared example_plugin (names_matcher [''index.js''])
                   ''out'' ''app.js'' example_app) =
       [WriteFile ''out/app.js''
          (Text ''"use strict";\<newline>require("./bytecode-loader.js");f()'')]\<close>
    using rw_app found_app put_app dir kind
    by (simp add: process_chunk_def inject_loader_def Let_def bc)
  have plain: "ops (process_chunk example_shared example_plugin (names_matcher [''index.js''])
                   ''out'' ''plain.js'' example_plain) =
       [WriteFile ''out/plain.js'' (Text ''f()'')]"
    using rw_plain found_plain put_plain dir kind
    by (simp add: process_chunk_def inject_loader_def Let_def bc)
  from far bc code app found_plain plain show ?thesis by (simp only: simp_thms)
qed

theorem propagation_terminates_witness:
  "idsToHandle (propagate example_cycle [''index.js''] example_main)
     = [''utils.js'', ''main.js'', ''other.js'']
   \<and> visited (propagate example_cycle [''index.js''] example_main) = 3
   \<and> \<not> hasBytecodeMoudle (propagate example_cycle [''index.js''] example_main)
   \<and> 3 \<le> card (set (chunk_imports example_main) \<union> set (chunk_dynamicImports example_main)
                 \<union> graph_importers example_cycle)"
proof -
  have run: "propagate example_cycle [''index.js''] example_main
    = \<lparr>hasBytecodeMoudle = False, idsToHandle = [''utils.js'', ''main.js'', ''other.js''],
       visited = 3\<rparr>"
    by code_simp
  from propagation_terminates [of example_main example_cycle "[''index.js'']"] run
  show ?thesis by simp
qed

end
